theory Spec2Isabelle
  imports Main "HOL-Library.AList" "HOL-Library.Sublist"
begin

section \<open>JavaScript strings and options\<close>

text \<open>
  Strings are \<^typ>\<open>string\<close>, one \<^typ>\<open>char\<close> per character. \<open>s.charAt(0)\<close> is the first
  character as a string, the empty string when there is none.
\<close>

definition charAt0 :: "string \<Rightarrow> string" where
  "charAt0 s = take 1 s"

section \<open>The notepad tree (src/Notepad.ts)\<close>

text \<open>
  Objects live in a store. A reference to an object is its index in the list of the
  objects of its class, and \<open>new\<close> appends to that list, so a new object is distinct
  from every object that exists. Arrays are never updated in place by the code modelled
  here (every operation builds a new array with the spread syntax), so an array is the
  list of its elements. A \<open>Date\<close>, and the string \<open>format\<close> makes of it and \<open>parse\<close>
  reads back, are the number of milliseconds they stand for.

  A reference is meant to be valid (below the length of its list); the statements say so
  where they read an object.
\<close>

subsection \<open>The classes\<close>

text \<open>
  \<open>interface Parent\<close> is implemented by \<open>Notepad\<close> and by \<open>Section\<close>: a parent
  back-reference is a reference to an object of one of the two classes.
\<close>

datatype Parent = NotepadRef nat | SectionRef nat

text \<open>
  Modelled from the spec: the classes \<open>Asset\<close>, \<open>Note\<close> and \<open>Section\<close> and the types
  \<open>NoteElement\<close> and \<open>Source\<close>, whose files are not among the sources. Their fields are
  those the sources read or pass to their constructors (\<open>asset.uuid\<close>; \<open>section.title\<close>,
  \<open>internalRef\<close>, \<open>parent\<close>, \<open>notes\<close>, \<open>sections\<close>;
  \<open>new Note(title, time, elements, bibliography, internalRef)\<close>; the element and the
  source of the tests of \<open>Note\<close>) and the spec lists: an asset is an identity and a
  binary payload; a note has a title, a time, ordered elements, an ordered bibliography,
  a stable identifier and a back-reference to its section; a section has a title, a
  stable identifier, ordered child sections, ordered notes and a back-reference to its
  parent.
\<close>

record Asset =
  uuid :: string
  data :: string

record NoteElement =
  type :: string
  content :: string
  args :: "(string \<times> string) list"

record Source =
  id' :: int
  item :: string
  content :: string

record Note =
  title :: string
  time :: int
  elements :: "NoteElement list"
  bibliography :: "Source list"
  internalRef :: string
  parent :: "Parent option"

record Section =
  title :: string
  sections :: "nat list"
  "notes" :: "nat list"
  internalRef :: string
  parent :: "Parent option"

text \<open>
  A key of an object literal whose keys are optional: the key is absent, or it is
  present and holds \<open>undefined\<close>, or it is present and holds a value. Reading the key
  gives \<open>undefined\<close> in the first two cases, but the spread syntax copies a key that is
  present, whatever it holds.
\<close>

datatype 'a property = Absent | Undefined | Present 'a

text \<open>\<open>type NotepadOptions\<close>: every key is optional.\<close>

record NotepadOptions =
  lastModified :: "int property"
  sections :: "nat list property"
  notepadAssets :: "string list property"
  assets :: "Asset list property"

text \<open>\<open>class Notepad\<close>: \<open>sections\<close> holds references to \<open>Section\<close> objects.\<close>

record Notepad =
  title :: string
  lastModified :: int
  sections :: "nat list"
  notepadAssets :: "string list"
  assets :: "Asset list"

text \<open>The store, and the time \<open>new Date()\<close> reads.\<close>

record heap =
  notepad_objs :: "Notepad list"
  section_objs :: "Section list"
  note_objs :: "Note list"
  now :: int

definition empty_heap :: "int \<Rightarrow> heap" where
  "empty_heap t = \<lparr>notepad_objs = [], section_objs = [], note_objs = [], now = t\<rparr>"

subsection \<open>The constructor and \<open>clone\<close>\<close>

text \<open>\<open>opts = {}\<close>\<close>

definition no_opts :: NotepadOptions where
  "no_opts =
     \<lparr>NotepadOptions.lastModified = Absent, sections = Absent, notepadAssets = Absent,
      assets = Absent\<rparr>"

text \<open>
  \<open>opts.key || d\<close>, where a value is an array or a \<open>Date\<close>, which are truthy: \<open>d\<close> is
  taken when the key is absent and when it holds \<open>undefined\<close>.
\<close>

definition or_else :: "'a property \<Rightarrow> 'a \<Rightarrow> 'a" where
  "or_else v d = (case v of Absent \<Rightarrow> d | Undefined \<Rightarrow> d | Present x \<Rightarrow> x)"

text \<open>
  The key in \<open>{key: d, ...opts}\<close>: a key that is present in \<open>opts\<close> replaces the one
  written before the spread, also when it holds \<open>undefined\<close>.
\<close>

definition spread_over :: "'a \<Rightarrow> 'a property \<Rightarrow> 'a property" where
  "spread_over d v = (case v of Absent \<Rightarrow> Present d | Undefined \<Rightarrow> Undefined | Present x \<Rightarrow> Present x)"

text \<open>
  A parameter with a default value, \<open>f(x = d)\<close>: the default is taken when the argument
  is left out or is \<open>undefined\<close>, which is \<open>None\<close>.
\<close>

definition or_default :: "'a option \<Rightarrow> 'a \<Rightarrow> 'a" where
  "or_default v d = (case v of None \<Rightarrow> d | Some x \<Rightarrow> x)"

definition new_Notepad :: "string \<Rightarrow> NotepadOptions \<Rightarrow> heap \<Rightarrow> nat \<times> heap" where
  "new_Notepad title' opts h =
     (length (notepad_objs h),
      h\<lparr>notepad_objs := notepad_objs h @
        [\<lparr>Notepad.title = title',
          lastModified = or_else (NotepadOptions.lastModified opts) (now h),
          sections = or_else (NotepadOptions.sections opts) [],
          notepadAssets = or_else (NotepadOptions.notepadAssets opts) [],
          assets = or_else (NotepadOptions.assets opts) []\<rparr>]\<rparr>)"

text \<open>
  \<open>clone(opts = {}, title = this.title)\<close> calls the constructor with the receiver's four
  fields and \<open>...opts\<close> spread over them: a key of \<open>opts\<close> that holds \<open>undefined\<close>
  replaces the receiver's field, and the constructor then takes its default.
\<close>

definition clone :: "NotepadOptions \<Rightarrow> string option \<Rightarrow> nat \<Rightarrow> heap \<Rightarrow> nat \<times> heap" where
  "clone opts title' this h =
     (let me = notepad_objs h ! this in
      new_Notepad (or_default title' (Notepad.title me))
        \<lparr>NotepadOptions.lastModified =
           spread_over (Notepad.lastModified me) (NotepadOptions.lastModified opts),
         sections = spread_over (Notepad.sections me) (NotepadOptions.sections opts),
         notepadAssets = spread_over (Notepad.notepadAssets me) (NotepadOptions.notepadAssets opts),
         assets = spread_over (Notepad.assets me) (NotepadOptions.assets opts)\<rparr> h)"

subsection \<open>\<open>addSection\<close>, \<open>addAsset\<close>, \<open>modified\<close>\<close>

text \<open>
  \<open>addSection\<close> clones the notepad with the section appended, then assigns the new
  notepad to \<open>section.parent\<close>: an update of the \<open>Section\<close> object in the store.
\<close>

definition Notepad_addSection :: "nat \<Rightarrow> nat \<Rightarrow> heap \<Rightarrow> nat \<times> heap" where
  "Notepad_addSection section this h =
     (let (notepad, h1) =
            clone (no_opts\<lparr>NotepadOptions.sections :=
                      Present (Notepad.sections (notepad_objs h ! this) @ [section])\<rparr>) None this h;
          h2 = h1\<lparr>section_objs := (section_objs h1)
                  [section := (section_objs h1 ! section)\<lparr>Section.parent := Some (NotepadRef notepad)\<rparr>]\<rparr>
      in (notepad, h2))"

definition Notepad_addAsset :: "Asset \<Rightarrow> nat \<Rightarrow> heap \<Rightarrow> nat \<times> heap" where
  "Notepad_addAsset asset this h =
     clone (no_opts\<lparr>NotepadOptions.assets := Present (Notepad.assets (notepad_objs h ! this) @ [asset]),
                    NotepadOptions.notepadAssets :=
                      Present (Notepad.notepadAssets (notepad_objs h ! this) @ [uuid asset])\<rparr>)
       None this h"

text \<open>\<open>modified(lastModified = new Date())\<close>\<close>

definition modified :: "int option \<Rightarrow> nat \<Rightarrow> heap \<Rightarrow> nat \<times> heap" where
  "modified lastModified' this h =
     clone (no_opts\<lparr>NotepadOptions.lastModified := Present (or_default lastModified' (now h))\<rparr>)
       None this h"

subsection \<open>\<open>flatten\<close>\<close>

text \<open>\<open>type FlatSection\<close>; an absent \<open>parentRef\<close>, or one that holds \<open>undefined\<close>, is \<open>None\<close>.\<close>

record FlatSection =
  title :: string
  internalRef :: string
  parentRef :: "string option"

text \<open>
  \<open>flatten\<close> builds its result with the constructor of \<open>FlatNotepad\<close> and its methods
  \<open>addSection\<close> and \<open>addNote\<close>. \<open>FlatNotepad.ts\<close> is not among the sources, so the three
  are parameters of \<open>flatten\<close>: a class of flat notepads of any type \<open>'np\<close>. \<open>addNote\<close>
  is given a \<open>Note\<close> object, here the store and the reference.
\<close>

record 'np FlatNotepad_class =
  new_FlatNotepad :: "string \<Rightarrow> int \<Rightarrow> string list \<Rightarrow> 'np"
  addSection :: "FlatSection \<Rightarrow> 'np \<Rightarrow> 'np"
  addNote :: "heap \<Rightarrow> nat \<Rightarrow> 'np \<Rightarrow> 'np"

text \<open>
  \<open>xs.forEach(x => f(x))\<close> for an \<open>f\<close> that updates the flat notepad and may not return.
\<close>

fun forEach :: "('a \<Rightarrow> 's \<Rightarrow> 's option) \<Rightarrow> 'a list \<Rightarrow> 's \<Rightarrow> 's option" where
  "forEach f [] st = Some st"
| "forEach f (x # xs) st = (case f x st of None \<Rightarrow> None | Some st' \<Rightarrow> forEach f xs st')"

text \<open>
  The first two lines of \<open>flattenSection\<close>: the descriptor of a section. When
  \<open>section.parent\<close> is set, \<open>parentRef\<close> is \<open>(section.parent as Section).internalRef\<close>,
  which is \<open>undefined\<close> when the parent is a \<open>Notepad\<close>: a notepad has no \<open>internalRef\<close>.
\<close>

definition flat_descriptor :: "heap \<Rightarrow> nat \<Rightarrow> FlatSection" where
  "flat_descriptor h section =
     (let sec = section_objs h ! section in
      \<lparr>FlatSection.title = Section.title sec,
       internalRef = Section.internalRef sec,
       parentRef = (case Section.parent sec of
                      None \<Rightarrow> None
                    | Some (NotepadRef p) \<Rightarrow> None
                    | Some (SectionRef p) \<Rightarrow> Some (Section.internalRef (section_objs h ! p)))\<rparr>)"

text \<open>
  \<open>flattenSection\<close> calls itself on the child sections, which are read from the store;
  the recursion is bounded by fuel, and \<open>None\<close> is a call that does not return.
\<close>

fun flattenSection ::
  "'np FlatNotepad_class \<Rightarrow> nat \<Rightarrow> heap \<Rightarrow> nat \<Rightarrow> 'np \<Rightarrow> 'np option" where
  "flattenSection F 0 h section notepad = None"
| "flattenSection F (Suc fuel) h section notepad =
     (let flat = flat_descriptor h section;
          notepad1 = addSection F flat notepad;
          notepad2 = foldl (\<lambda>np n. addNote F h n np) notepad1
                       (Section.notes (section_objs h ! section))
      in forEach (flattenSection F fuel h) (Section.sections (section_objs h ! section)) notepad2)"

definition flatten :: "'np FlatNotepad_class \<Rightarrow> nat \<Rightarrow> nat \<Rightarrow> heap \<Rightarrow> 'np option" where
  "flatten F fuel this h =
     (let me = notepad_objs h ! this;
          notepad = new_FlatNotepad F (Notepad.title me) (Notepad.lastModified me)
                      (Notepad.notepadAssets me)
      in forEach (flattenSection F fuel h) (Notepad.sections me) notepad)"

text \<open>
  The class of flat notepads that records the descriptors \<open>flatten\<close> passes to
  \<open>addSection\<close>, in the order of the calls.
\<close>

definition Trace :: "FlatSection list FlatNotepad_class" where
  "Trace = \<lparr>new_FlatNotepad = (\<lambda>t lm as. []), addSection = (\<lambda>flat tr. tr @ [flat]),
            addNote = (\<lambda>h n tr. tr)\<rparr>"

section \<open>Sections and notes\<close>

text \<open>
  Modelled from the spec: the constructors of \<open>Section\<close> and \<open>Note\<close> and the methods
  \<open>Section.addSection\<close>, \<open>Section.addNote\<close>, \<open>Note.addElement\<close> and \<open>Note.addSource\<close>
  (\<open>Section.ts\<close> and \<open>Note.ts\<close> are not among the sources). The spec: every mutating
  operation returns a new value of the same entity type and never mutates the original;
  \<open>addSection\<close> appends the child, produces a new parent and sets the new child's parent
  back-reference to the new parent object; \<open>addNote\<close>, \<open>addElement\<close> and \<open>addSource\<close> are
  analogous append operations; \<open>internalRef\<close> is preserved by every clone. The
  constructors take the \<open>internalRef\<close> they would otherwise mint. The new object is a
  copy of the receiver in every field the operation does not set.
\<close>

definition new_Section ::
  "string \<Rightarrow> nat list \<Rightarrow> nat list \<Rightarrow> string \<Rightarrow> heap \<Rightarrow> nat \<times> heap" where
  "new_Section title' sections' notes' internalRef' h =
     (length (section_objs h),
      h\<lparr>section_objs := section_objs h @
        [\<lparr>Section.title = title', sections = sections', notes = notes',
          internalRef = internalRef', parent = None\<rparr>]\<rparr>)"

definition Section_addSection :: "nat \<Rightarrow> nat \<Rightarrow> heap \<Rightarrow> nat \<times> heap" where
  "Section_addSection section this h =
     (let me = section_objs h ! this;
          parent' = length (section_objs h);
          h1 = h\<lparr>section_objs := section_objs h @
                  [me\<lparr>Section.sections := Section.sections me @ [section]\<rparr>]\<rparr>;
          h2 = h1\<lparr>section_objs := (section_objs h1)
                  [section := (section_objs h1 ! section)\<lparr>Section.parent := Some (SectionRef parent')\<rparr>]\<rparr>
      in (parent', h2))"

definition Section_addNote :: "nat \<Rightarrow> nat \<Rightarrow> heap \<Rightarrow> nat \<times> heap" where
  "Section_addNote note this h =
     (let me = section_objs h ! this;
          parent' = length (section_objs h);
          h1 = h\<lparr>section_objs := section_objs h @
                  [me\<lparr>Section.notes := Section.notes me @ [note]\<rparr>]\<rparr>;
          h2 = h1\<lparr>note_objs := (note_objs h1)
                  [note := (note_objs h1 ! note)\<lparr>Note.parent := Some (SectionRef parent')\<rparr>]\<rparr>
      in (parent', h2))"

definition new_Note ::
  "string \<Rightarrow> int \<Rightarrow> NoteElement list \<Rightarrow> Source list \<Rightarrow> string \<Rightarrow> heap \<Rightarrow> nat \<times> heap" where
  "new_Note title' time' elements' bibliography' internalRef' h =
     (length (note_objs h),
      h\<lparr>note_objs := note_objs h @
        [\<lparr>Note.title = title', time = time', elements = elements', bibliography = bibliography',
          internalRef = internalRef', parent = None\<rparr>]\<rparr>)"

definition Note_addElement :: "NoteElement \<Rightarrow> nat \<Rightarrow> heap \<Rightarrow> nat \<times> heap" where
  "Note_addElement element this h =
     (let me = note_objs h ! this in
      (length (note_objs h),
       h\<lparr>note_objs := note_objs h @ [me\<lparr>Note.elements := Note.elements me @ [element]\<rparr>]\<rparr>))"

definition Note_addSource :: "Source \<Rightarrow> nat \<Rightarrow> heap \<Rightarrow> nat \<times> heap" where
  "Note_addSource source this h =
     (let me = note_objs h ! this in
      (length (note_objs h),
       h\<lparr>note_objs := note_objs h @
            [me\<lparr>Note.bibliography := Note.bibliography me @ [source]\<rparr>]\<rparr>))"

subsection \<open>\<open>Note.search\<close> and \<open>Note.getHashtags\<close>\<close>

text \<open>
  Modelled from the spec: \<open>Note.search\<close> and \<open>Note.getHashtags\<close> (\<open>Note.ts\<close> is not
  among the sources; its tests are). The spec: an empty query matches every note and
  returns the note itself; a non-empty query that does not start with \<open>#\<close> is a
  case-insensitive substring match against the title; a query that starts with \<open>#\<close>
  requires an exact token match against the note's extracted hashtags. \<open>getHashtags\<close>
  scans every element's textual content for tokens matching a \<open>#\<close>-prefixed word
  pattern and returns them in order of appearance, duplicates retained. A word is a
  non-empty run of letters, digits and underscores; \<open>toLowerCase\<close> maps the letters
  \<open>A\<close> to \<open>Z\<close>.
\<close>

definition toLowerCase :: "string \<Rightarrow> string" where
  "toLowerCase s =
     map (\<lambda>c. case map_of (zip ''ABCDEFGHIJKLMNOPQRSTUVWXYZ'' ''abcdefghijklmnopqrstuvwxyz'') c of
                None \<Rightarrow> c | Some l \<Rightarrow> l) s"

text \<open>\<open>s.includes(sub)\<close>\<close>

definition includes_str :: "string \<Rightarrow> string \<Rightarrow> bool" where
  "includes_str s sub = sublist sub s"

definition is_word_char :: "char \<Rightarrow> bool" where
  "is_word_char c =
     (c \<in> set ''abcdefghijklmnopqrstuvwxyzABCDEFGHIJKLMNOPQRSTUVWXYZ0123456789_'')"

text \<open>The tokens of a text: each \<open>#\<close> that a word follows, with that word.\<close>

fun hashtags_in :: "string \<Rightarrow> string list" where
  "hashtags_in [] = []"
| "hashtags_in (c # cs) =
     (if c = CHR ''#'' \<and> takeWhile is_word_char cs \<noteq> []
      then (c # takeWhile is_word_char cs) # hashtags_in cs
      else hashtags_in cs)"

definition getHashtags :: "Note \<Rightarrow> string list" where
  "getHashtags n = concat (map (\<lambda>e. hashtags_in (NoteElement.content e)) (Note.elements n))"

text \<open>\<open>search\<close> returns \<open>[this]\<close> or \<open>[]\<close>.\<close>

definition Note_search :: "string \<Rightarrow> nat \<Rightarrow> heap \<Rightarrow> nat list" where
  "Note_search query this h =
     (let me = note_objs h ! this in
      if query = [] then [this]
      else if charAt0 query \<noteq> ''#'' then
        (if includes_str (toLowerCase (Note.title me)) (toLowerCase query) then [this] else [])
      else (if query \<in> set (getHashtags me) then [this] else []))"

section \<open>Notions the statements about the notepad use\<close>

text \<open>The sections below a section, itself included, and the sections of a notepad's tree.\<close>

inductive_set below :: "heap \<Rightarrow> nat \<Rightarrow> nat set" for h :: heap and s :: nat where
  self: "s \<in> below h s"
| child: "q \<in> below h s \<Longrightarrow> c \<in> set (Section.sections (section_objs h ! q)) \<Longrightarrow> c \<in> below h s"

definition tree_sections :: "heap \<Rightarrow> nat \<Rightarrow> nat set" where
  "tree_sections h this = (\<Union>s \<in> set (Notepad.sections (notepad_objs h ! this)). below h s)"

text \<open>
  A section is created after its children: the constructor is given the array of
  children, whose elements exist.
\<close>

definition children_older :: "heap \<Rightarrow> bool" where
  "children_older h =
     (\<forall>s < length (section_objs h). \<forall>c \<in> set (Section.sections (section_objs h ! s)). c < s)"

text \<open>Every asset of a notepad has its uuid in the list of identifiers in use.\<close>

definition assets_in_use :: "Notepad \<Rightarrow> bool" where
  "assets_in_use p = (\<forall>a \<in> set (Notepad.assets p). uuid a \<in> set (Notepad.notepadAssets p))"

text \<open>The public methods of \<open>Notepad\<close> that return a notepad.\<close>

datatype notepad_op =
    AddSection nat
  | AddAsset Asset
  | Modified "int option"
  | Clone NotepadOptions "string option"

fun apply_op :: "notepad_op \<Rightarrow> nat \<Rightarrow> heap \<Rightarrow> nat \<times> heap" where
  "apply_op (AddSection section) this h = Notepad_addSection section this h"
| "apply_op (AddAsset asset) this h = Notepad_addAsset asset this h"
| "apply_op (Modified lm) this h = modified lm this h"
| "apply_op (Clone opts title') this h = clone opts title' this h"

text \<open>
  The calls that give \<open>clone\<close> no key \<open>assets\<close> and no key \<open>notepadAssets\<close> of their
  own.
\<close>

fun keeps_asset_lists :: "notepad_op \<Rightarrow> bool" where
  "keeps_asset_lists (Clone opts title') =
     (NotepadOptions.assets opts = Absent \<and> NotepadOptions.notepadAssets opts = Absent)"
| "keeps_asset_lists op = True"

subsection \<open>Concrete stores\<close>

text \<open>A notepad \<open>P\<close> and a section \<open>S\<close> that is not yet in it.\<close>

definition link_heap :: heap where
  "link_heap = snd (new_Notepad ''P'' no_opts (snd (new_Section ''S'' [] [] ''_s'' (empty_heap 7))))"

text \<open>A notepad with one asset, added by \<open>addAsset\<close>.\<close>

definition demo_asset :: Asset where
  "demo_asset = \<lparr>uuid = ''u1'', data = ''png''\<rparr>"

definition asset_heap :: heap where
  "asset_heap = snd (Notepad_addAsset demo_asset 0 (snd (new_Notepad ''P'' no_opts (empty_heap 7))))"

text \<open>
  The section \<open>S\<close> is added to the notepad \<open>P\<close> and then to the section \<open>A\<close>:
  \<open>p2 = p.addSection(s); a2 = a.addSection(s)\<close>. The result is \<open>p2\<close> and the store.
\<close>

definition shared_section :: "nat \<times> heap" where
  "shared_section =
     (let h0 = empty_heap 7;
          (s, h1) = new_Section ''S'' [] [] ''_s'' h0;
          (a, h2) = new_Section ''A'' [] [] ''_a'' h1;
          (p, h3) = new_Notepad ''P'' no_opts h2;
          (p2, h4) = Notepad_addSection s p h3;
          (a2, h5) = Section_addSection s a h4
      in (p2, h5))"

text \<open>The store after \<open>p.addSection(s)\<close>, and that store with a note \<open>N\<close>.\<close>

definition linked_heap :: heap where
  "linked_heap = snd (Notepad_addSection 0 0 link_heap)"


text \<open>
  The notes of the tests of \<open>Note.search\<close>: a note titled \<open>test\<close>, and the note that
  \<open>addElement\<close> makes of it with the text \<open>#match\<close>.
\<close>

definition test_note_heap :: heap where
  "test_note_heap =
     snd (Note_addElement \<lparr>type = ''markdown'', content = ''#match'', args = []\<rparr> 0
       (snd (new_Note ''test'' 0 [] [] ''_t'' (empty_heap 7))))"

section \<open>The flat notepad and the way back\<close>

text \<open>
  Modelled from the spec: the class \<open>FlatNotepad\<close> and the flat form of a note
  (\<open>FlatNotepad.ts\<close> is not among the sources). The spec: the result of \<open>flatten\<close> is two
  identifier-keyed mappings (flat sections, flat notes) plus the notepad's title, timestamp
  and asset-identifier list; for every note \<open>flatten\<close> emits the note itself, keyed by its
  own \<open>internalRef\<close>, with its owning section's \<open>internalRef\<close> recorded as the note's parent
  link. The spec prefers a mapping that preserves insertion order, so the two mappings are
  association lists in insertion order; writing under a key that is present replaces the
  entry where it stands, as a JavaScript object does.
\<close>

record FlatNote =
  title :: string
  time :: int
  elements :: "NoteElement list"
  bibliography :: "Source list"
  internalRef :: string
  parent :: "string option"

record FlatNotepad =
  title :: string
  lastModified :: int
  sections :: "(string \<times> FlatSection) list"
  "notes" :: "(string \<times> FlatNote) list"
  notepadAssets :: "string list"

text \<open>
  Modelled from the spec: the constructor of \<open>FlatNotepad\<close>, called by \<open>flatten\<close> with the
  title, the timestamp and the asset identifiers, and \<open>FlatNotepad.addSection\<close>, which
  records a descriptor under its \<open>internalRef\<close>.
\<close>

definition new_FlatNotepad' :: "string \<Rightarrow> int \<Rightarrow> string list \<Rightarrow> FlatNotepad" where
  "new_FlatNotepad' title' lastModified' notepadAssets' =
     \<lparr>FlatNotepad.title = title', lastModified = lastModified', sections = [], notes = [],
      notepadAssets = notepadAssets'\<rparr>"

definition FlatNotepad_addSection :: "FlatSection \<Rightarrow> FlatNotepad \<Rightarrow> FlatNotepad" where
  "FlatNotepad_addSection flat np =
     np\<lparr>FlatNotepad.sections :=
          AList.update (FlatSection.internalRef flat) flat (FlatNotepad.sections np)\<rparr>"

text \<open>
  Modelled from the spec: \<open>FlatNotepad.addNote\<close>. The note is recorded under its own
  \<open>internalRef\<close> with its fields and, as parent link, the \<open>internalRef\<close> of the section its
  parent back-reference names; the link is read like \<open>parentRef\<close> in \<open>flattenSection\<close>.
\<close>

definition flat_note :: "heap \<Rightarrow> nat \<Rightarrow> FlatNote" where
  "flat_note h n =
     (let me = note_objs h ! n in
      \<lparr>FlatNote.title = Note.title me, time = Note.time me, elements = Note.elements me,
       bibliography = Note.bibliography me, internalRef = Note.internalRef me,
       parent = (case Note.parent me of
                   None \<Rightarrow> None
                 | Some (NotepadRef p) \<Rightarrow> None
                 | Some (SectionRef p) \<Rightarrow> Some (Section.internalRef (section_objs h ! p)))\<rparr>)"

definition FlatNotepad_addNote :: "heap \<Rightarrow> nat \<Rightarrow> FlatNotepad \<Rightarrow> FlatNotepad" where
  "FlatNotepad_addNote h n np =
     np\<lparr>FlatNotepad.notes :=
          AList.update (Note.internalRef (note_objs h ! n)) (flat_note h n) (FlatNotepad.notes np)\<rparr>"

text \<open>
  Modelled from the spec: the class \<open>flatten\<close> is run with, made of the three operations
  above.
\<close>

definition FlatNotepad_ops :: "FlatNotepad FlatNotepad_class" where
  "FlatNotepad_ops =
     \<lparr>new_FlatNotepad = new_FlatNotepad', addSection = FlatNotepad_addSection,
      addNote = FlatNotepad_addNote\<rparr>"

subsection \<open>\<open>toNotepad\<close>\<close>

text \<open>
  Modelled from the spec: \<open>FlatNotepad.toNotepad\<close>. The spec: a flat section with no
  \<open>parentRef\<close> becomes a top-level section of the new notepad; all others are attached under
  the section whose \<open>internalRef\<close> equals their \<open>parentRef\<close>; reconstruction does not assume
  that parents come before children and fails if a \<open>parentRef\<close> does not resolve to any
  known flat section. Here a section is rebuilt by recursive resolution: a new \<open>Section\<close>
  with the descriptor's title and \<open>internalRef\<close>, to which the rebuilt flat sections naming
  it as parent are added with \<open>Section.addSection\<close>, then the notes naming it as parent,
  rebuilt with the constructor of \<open>Note\<close>, with \<open>Section.addNote\<close>, each in the order of
  the mapping. The recursion is bounded by fuel, \<open>None\<close> being a call that does not return;
  \<open>toNotepad\<close> gives it the number of flat sections.
\<close>

definition restoreNote :: "FlatNote \<Rightarrow> heap \<Rightarrow> nat \<times> heap" where
  "restoreNote n h =
     new_Note (FlatNote.title n) (FlatNote.time n) (FlatNote.elements n) (FlatNote.bibliography n)
       (FlatNote.internalRef n) h"

definition attachSection :: "(nat \<times> heap) option \<Rightarrow> nat \<Rightarrow> (nat \<times> heap) option" where
  "attachSection built section =
     (case built of None \<Rightarrow> None | Some (child, h) \<Rightarrow> Some (Section_addSection child section h))"

definition attachNote :: "nat \<times> heap \<Rightarrow> FlatNote \<Rightarrow> nat \<times> heap" where
  "attachNote st n =
     (let (note, h1) = restoreNote n (snd st) in Section_addNote note (fst st) h1)"

fun buildSection :: "nat \<Rightarrow> FlatNotepad \<Rightarrow> FlatSection \<Rightarrow> heap \<Rightarrow> (nat \<times> heap) option" where
  "buildSection 0 fn flat h = None"
| "buildSection (Suc fuel) fn flat h =
     (let (section, h0) = new_Section (FlatSection.title flat) [] [] (FlatSection.internalRef flat) h;
          subs = filter (\<lambda>c. parentRef c = Some (FlatSection.internalRef flat))
                   (map snd (FlatNotepad.sections fn));
          mine = filter (\<lambda>n. FlatNote.parent n = Some (FlatSection.internalRef flat))
                   (map snd (FlatNotepad.notes fn))
      in case forEach (\<lambda>c st. attachSection (buildSection fuel fn c (snd st)) (fst st)) subs
                (section, h0) of
           None \<Rightarrow> None
         | Some st \<Rightarrow> Some (foldl attachNote st mine))"

text \<open>
  Modelled from the spec: the failure of reconstruction. Some flat section has a
  \<open>parentRef\<close> that is the key of no flat section.
\<close>

definition unresolved :: "FlatNotepad \<Rightarrow> bool" where
  "unresolved fn =
     list_ex (\<lambda>c. case parentRef c of
                    None \<Rightarrow> False
                  | Some r \<Rightarrow> r \<notin> set (map fst (FlatNotepad.sections fn)))
       (map snd (FlatNotepad.sections fn))"

text \<open>
  Modelled from the spec: \<open>toNotepad\<close> itself; \<open>None\<close> is the failure. The new notepad takes
  the title, the timestamp and the asset identifiers of the flat one, and the rebuilt
  top-level sections are added with \<open>Notepad.addSection\<close>.
\<close>

definition toNotepad :: "FlatNotepad \<Rightarrow> heap \<Rightarrow> (nat \<times> heap) option" where
  "toNotepad fn h =
     (if unresolved fn then None
      else
        (let (notepad, h0) =
               new_Notepad (FlatNotepad.title fn)
                 (no_opts\<lparr>NotepadOptions.lastModified := Present (FlatNotepad.lastModified fn),
                          NotepadOptions.notepadAssets := Present (FlatNotepad.notepadAssets fn)\<rparr>) h;
             roots = filter (\<lambda>c. parentRef c = None) (map snd (FlatNotepad.sections fn))
         in forEach
              (\<lambda>c st. case buildSection (length (FlatNotepad.sections fn)) fn c (snd st) of
                         None \<Rightarrow> None
                       | Some (section, h1) \<Rightarrow> Some (Notepad_addSection section (fst st) h1))
              roots (notepad, h0)))"

subsection \<open>Notions the statement about the round trip uses\<close>

text \<open>
  The tree a section stands for, without the store: title, \<open>internalRef\<close>, the notes in
  order (each without its parent back-reference) and the child trees in order. Two notepads
  are structurally equivalent when their top-level sections stand for the same trees.
\<close>

datatype stree =
  STree (st_title: string) (st_ref: string) (st_notes: "Note list") (st_children: "stree list")

definition note_view :: "heap \<Rightarrow> nat \<Rightarrow> Note" where
  "note_view h n = (note_objs h ! n)\<lparr>Note.parent := None\<rparr>"

definition section_view :: "heap \<Rightarrow> nat \<Rightarrow> Section" where
  "section_view h s = (section_objs h ! s)\<lparr>Section.parent := None\<rparr>"

inductive represents :: "heap \<Rightarrow> nat \<Rightarrow> stree \<Rightarrow> bool" for h :: heap where
  node: "s < length (section_objs h) \<Longrightarrow>
         \<forall>n \<in> set (Section.notes (section_objs h ! s)). n < length (note_objs h) \<Longrightarrow>
         list_all2 (represents h) (Section.sections (section_objs h ! s)) ts \<Longrightarrow>
         represents h s
           (STree (Section.title (section_objs h ! s)) (Section.internalRef (section_objs h ! s))
              (map (note_view h) (Section.notes (section_objs h ! s))) ts)"

text \<open>
  The nodes of a tree, the \<open>internalRef\<close>s of its sections and of its notes, and its
  height.
\<close>

fun nodes :: "stree \<Rightarrow> stree list" where
  "nodes (STree t r ns cs) = STree t r ns cs # concat (map nodes cs)"

fun refs :: "stree \<Rightarrow> string list" where
  "refs (STree t r ns cs) = r # concat (map refs cs)"

fun note_refs :: "stree \<Rightarrow> string list" where
  "note_refs (STree t r ns cs) = map Note.internalRef ns @ concat (map note_refs cs)"

fun height :: "stree \<Rightarrow> nat" where
  "height (STree t r ns cs) = Suc (foldr max (map height cs) 0)"

text \<open>
  The flat sections and the flat notes of a tree whose root has the parent link \<open>p\<close>, in
  depth-first order.
\<close>

definition root_entry :: "string option \<Rightarrow> stree \<Rightarrow> FlatSection" where
  "root_entry p t = \<lparr>FlatSection.title = st_title t, internalRef = st_ref t, parentRef = p\<rparr>"

fun entries :: "string option \<Rightarrow> stree \<Rightarrow> FlatSection list" where
  "entries p (STree t r ns cs) =
     root_entry p (STree t r ns cs) # concat (map (entries (Some r)) cs)"

definition to_flat :: "string option \<Rightarrow> Note \<Rightarrow> FlatNote" where
  "to_flat p n =
     \<lparr>FlatNote.title = Note.title n, time = Note.time n, elements = Note.elements n,
      bibliography = Note.bibliography n, internalRef = Note.internalRef n, parent = p\<rparr>"

fun fnotes :: "stree \<Rightarrow> FlatNote list" where
  "fnotes (STree t r ns cs) = map (to_flat (Some r)) ns @ concat (map fnotes cs)"

text \<open>
  The parent back-references agree with the tree of the notepad \<open>this\<close>: a top-level
  section has no parent or a notepad as parent; a child section and a note of a section
  \<open>q\<close> of the tree have as parent a section with the \<open>internalRef\<close> of \<open>q\<close>.
\<close>

definition links_ok :: "heap \<Rightarrow> nat \<Rightarrow> bool" where
  "links_ok h this =
     ((\<forall>s \<in> set (Notepad.sections (notepad_objs h ! this)). parentRef (flat_descriptor h s) = None)
      \<and> (\<forall>q \<in> tree_sections h this.
            (\<forall>c \<in> set (Section.sections (section_objs h ! q)).
               parentRef (flat_descriptor h c) = Some (Section.internalRef (section_objs h ! q)))
          \<and> (\<forall>n \<in> set (Section.notes (section_objs h ! q)).
               FlatNote.parent (flat_note h n) = Some (Section.internalRef (section_objs h ! q)))))"

text \<open>
  The store \<open>h'\<close> extends \<open>h\<close>: every object of \<open>h\<close> is in \<open>h'\<close>, under the same
  reference, with the same fields, the parent back-reference of a section or a note
  apart.
\<close>

definition extends :: "heap \<Rightarrow> heap \<Rightarrow> bool" where
  "extends h h' =
     (length (section_objs h) \<le> length (section_objs h')
      \<and> length (note_objs h) \<le> length (note_objs h')
      \<and> length (notepad_objs h) \<le> length (notepad_objs h')
      \<and> (\<forall>s < length (section_objs h). section_view h' s = section_view h s)
      \<and> (\<forall>n < length (note_objs h). note_view h' n = note_view h n)
      \<and> (\<forall>p < length (notepad_objs h). notepad_objs h' ! p = notepad_objs h ! p))"

text \<open>
  Writing a list of entries into a mapping one after the other, the mapping that holds
  a list of entries in order, and the flat notepad after the entries of a tree or of a
  list of trees were written into it.
\<close>

definition upd_all :: "('a \<Rightarrow> 'k) \<Rightarrow> 'a list \<Rightarrow> ('k \<times> 'a) list \<Rightarrow> ('k \<times> 'a) list" where
  "upd_all kf xs al = foldl (\<lambda>al x. AList.update (kf x) x al) al xs"

definition keyed :: "('a \<Rightarrow> 'k) \<Rightarrow> 'a list \<Rightarrow> ('k \<times> 'a) list" where
  "keyed kf xs = map (\<lambda>x. (kf x, x)) xs"

definition add_tree :: "string option \<Rightarrow> stree \<Rightarrow> FlatNotepad \<Rightarrow> FlatNotepad" where
  "add_tree p t np =
     np\<lparr>FlatNotepad.sections := upd_all FlatSection.internalRef (entries p t) (FlatNotepad.sections np),
        FlatNotepad.notes := upd_all FlatNote.internalRef (fnotes t) (FlatNotepad.notes np)\<rparr>"

definition add_forest :: "string option \<Rightarrow> stree list \<Rightarrow> FlatNotepad \<Rightarrow> FlatNotepad" where
  "add_forest p ts np =
     np\<lparr>FlatNotepad.sections :=
          upd_all FlatSection.internalRef (concat (map (entries p) ts)) (FlatNotepad.sections np),
        FlatNotepad.notes :=
          upd_all FlatNote.internalRef (concat (map fnotes ts)) (FlatNotepad.notes np)\<rparr>"

subsection \<open>A notepad with a nested section and a note\<close>

text \<open>
  \<open>A\<close> holds the section \<open>B\<close> and the note \<open>N\<close> and is the one top-level section of \<open>P\<close>,
  each built with the public operations, and the tree \<open>A\<close> stands for.
\<close>

definition family :: "nat \<times> heap" where
  "family =
     (let h0 = empty_heap 7;
          (n, h1) = new_Note ''N'' 1 [] [] ''_n'' h0;
          (b, h2) = new_Section ''B'' [] [] ''_b'' h1;
          (a, h3) = new_Section ''A'' [] [] ''_a'' h2;
          (a1, h4) = Section_addSection b a h3;
          (a2, h5) = Section_addNote n a1 h4;
          (p, h6) = new_Notepad ''P'' no_opts h5;
          (p1, h7) = Notepad_addSection a2 p h6
      in (p1, h7))"

definition family_tree :: "stree list" where
  "family_tree =
     [STree ''A'' ''_a''
        [\<lparr>Note.title = ''N'', time = 1, elements = [], bibliography = [], internalRef = ''_n'',
          parent = None\<rparr>]
        [STree ''B'' ''_b'' [] []]]"

section \<open>The search index (src/SearchIndex.ts)\<close>

text \<open>
  Strings are \<^typ>\<open>string\<close>, one \<^typ>\<open>char\<close> per character of the key; \<open>[...key]\<close> of the
  source is that list of characters. A \<open>Date\<close> is read only through \<open>getTime()\<close> and is
  modelled by that number of milliseconds, an \<^typ>\<open>int\<close>. The counter \<open>_size\<close> is a
  \<^typ>\<open>nat\<close>.
\<close>

subsection \<open>class TrieNode\<close>

text \<open>
  \<open>children\<close> is a JavaScript object keyed by one-character strings. It is kept as an
  association list in insertion order; \<open>node.children[ch]\<close> is \<^const>\<open>map_of\<close>, and an
  assignment to \<open>node.children[ch]\<close> is \<^const>\<open>AList.update\<close>, which keeps the place of
  a key that exists and appends a new one.
\<close>

datatype TrieNode =
  TrieNode (key: string) (node_notes: "string list") (children: "(char \<times> TrieNode) list")

text \<open>
  \<open>Object.values\<close> lists the values of the integer-like keys first, in ascending
  numeric order, then the values of the other keys in insertion order. Among
  one-character keys the integer-like ones are the digits.
\<close>

definition is_index_key :: "char \<Rightarrow> bool" where
  "is_index_key c = (c \<in> set ''0123456789'')"

definition object_values :: "(char \<times> 'v) list \<Rightarrow> 'v list" where
  "object_values kvs =
     map snd (sort_key (\<lambda>kv. (of_char (fst kv) :: nat)) (filter (\<lambda>kv. is_index_key (fst kv)) kvs))
     @ map snd (filter (\<lambda>kv. \<not> is_index_key (fst kv)) kvs)"

text \<open>
  \<open>getAllFrom\<close>: the node's own notes, then the \<open>reduce\<close> over \<open>Object.values(children)\<close>
  that concatenates what each child returns.
\<close>

primrec getAllFrom :: "TrieNode \<Rightarrow> string list" where
  "getAllFrom (TrieNode k ns cs) =
     ns @ foldl (\<lambda>acc val. acc @ val) [] (object_values (map (map_prod id getAllFrom) cs))"

subsection \<open>class Trie\<close>

record Trie =
  root :: TrieNode
  lastModified :: int
  hashtags :: "string \<rightharpoonup> string list"
  tsize :: nat

text \<open>The constructor; its argument defaults to the current time in the source.\<close>

definition new_Trie :: "int \<Rightarrow> Trie" where
  "new_Trie lm =
     \<lparr>root = TrieNode [CHR 0x00] [] [], lastModified = lm, hashtags = Map.empty, tsize = 0\<rparr>"

text \<open>The getter \<open>size\<close>.\<close>

definition size_Trie :: "Trie \<Rightarrow> nat" where
  "size_Trie t = tsize t"

definition shouldReindex :: "Trie \<Rightarrow> int \<Rightarrow> int \<Rightarrow> bool" where
  "shouldReindex t lm numberOfNotes =
     (lastModified t > lm \<or> numberOfNotes \<noteq> int (size_Trie t))"

text \<open>
  The loop of \<open>add\<close> over the characters of a title: it walks down from the root, creates
  the child \<open>new TrieNode(ch)\<close> where there is none, and pushes the reference on the notes
  of the node it ends at. The in-place walk is the recursion that rebuilds the path.
\<close>

fun insert_node :: "string \<Rightarrow> string \<Rightarrow> TrieNode \<Rightarrow> TrieNode" where
  "insert_node [] ref (TrieNode k ns cs) = TrieNode k (ns @ [ref]) cs"
| "insert_node (ch # rest) ref (TrieNode k ns cs) =
     (case map_of cs ch of
        None \<Rightarrow> TrieNode k ns (cs @ [(ch, insert_node rest ref (TrieNode [ch] [] []))])
      | Some child \<Rightarrow> TrieNode k ns (AList.update ch (insert_node rest ref child) cs))"

definition add :: "string \<Rightarrow> string \<Rightarrow> Trie \<Rightarrow> Trie" where
  "add k ref t =
     (if charAt0 k = ''#'' then
        (let ns = (case hashtags t k of None \<Rightarrow> [] | Some b \<Rightarrow> b) in
         if ref \<in> set ns then t
         else t\<lparr>hashtags := (hashtags t)(k \<mapsto> ns @ [ref])\<rparr>)
      else t\<lparr>root := insert_node k ref (root t), tsize := tsize t + 1\<rparr>)"

text \<open>
  The loop of \<open>search\<close>: one step down per character, \<open>None\<close> where the source returns
  \<open>[]\<close> from inside the loop because the character has no child.
\<close>

fun descend :: "string \<Rightarrow> TrieNode \<Rightarrow> TrieNode option" where
  "descend [] node = Some node"
| "descend (ch # rest) node =
     (case map_of (children node) ch of None \<Rightarrow> None | Some child \<Rightarrow> descend rest child)"

text \<open>\<open>[...new Set(xs)]\<close>: the elements of \<open>xs\<close> in the order of their first occurrence.\<close>

definition from_Set :: "'a list \<Rightarrow> 'a list" where
  "from_Set xs = rev (remdups (rev xs))"

definition search :: "string \<Rightarrow> Trie \<Rightarrow> string list" where
  "search query t =
     (if charAt0 query = ''#'' then
        (case hashtags t query of None \<Rightarrow> [] | Some b \<Rightarrow> b)
      else (case descend query (root t) of
              None \<Rightarrow> []
            | Some node \<Rightarrow> from_Set (getAllFrom node)))"

subsection \<open>Notions the statements about the index use\<close>

text \<open>A key is a hashtag key when \<open>add\<close> and \<open>search\<close> take their first branch.\<close>

definition is_hashtag :: "string \<Rightarrow> bool" where
  "is_hashtag k = (charAt0 k = ''#'')"

text \<open>
  The fields of a \<open>Trie\<close> are private, so the indexes a program can hold are those a
  sequence of \<open>add\<close> calls builds from a new one.
\<close>

fun add_all :: "(string \<times> string) list \<Rightarrow> Trie \<Rightarrow> Trie" where
  "add_all [] t = t"
| "add_all ((k, ref) # rest) t = add_all rest (add k ref t)"

text \<open>The nodes of the subtree below a node, the node itself included.\<close>

primrec subtree :: "TrieNode \<Rightarrow> TrieNode set" where
  "subtree (TrieNode k ns cs) =
     insert (TrieNode k ns cs) (\<Union>ce \<in> set (map (map_prod id subtree) cs). snd ce)"

text \<open>No node holds two children under one character.\<close>

primrec distinct_keys :: "TrieNode \<Rightarrow> bool" where
  "distinct_keys (TrieNode k ns cs) =
     (distinct (map fst cs) \<and> list_all snd (map (map_prod id distinct_keys) cs))"

text \<open>The references stored at the node a path leads to.\<close>

definition lookup :: "TrieNode \<Rightarrow> string \<Rightarrow> string list" where
  "lookup n k = (case descend k n of None \<Rightarrow> [] | Some m \<Rightarrow> node_notes m)"

text \<open>Every hashtag bucket lists a reference at most once.\<close>

definition buckets_distinct :: "Trie \<Rightarrow> bool" where
  "buckets_distinct t = (\<forall>k b. hashtags t k = Some b \<longrightarrow> distinct b)"

text \<open>An index used as concrete input: two titles, and one hashtag added twice.\<close>

definition demo_ops :: "(string \<times> string) list" where
  "demo_ops = [(''cat'', ''ref1''), (''car'', ''ref2''), (''#todo'', ''refA''), (''#todo'', ''refA'')]"

definition demo_index :: Trie where
  "demo_index = add_all demo_ops (new_Trie 5)"

section \<open>Properties of the notepad\<close>

subsection \<open>What each operation does to the store\<close>

lemma clone_unfold:
  "clone opts title' this h =
     (length (notepad_objs h),
      h\<lparr>notepad_objs := notepad_objs h @
        [\<lparr>Notepad.title = or_default title' (Notepad.title (notepad_objs h ! this)),
          lastModified =
            or_else (spread_over (Notepad.lastModified (notepad_objs h ! this)) (NotepadOptions.lastModified opts))
              (now h),
          sections =
            or_else (spread_over (Notepad.sections (notepad_objs h ! this)) (NotepadOptions.sections opts)) [],
          notepadAssets =
            or_else (spread_over (Notepad.notepadAssets (notepad_objs h ! this)) (NotepadOptions.notepadAssets opts)) [],
          assets =
            or_else (spread_over (Notepad.assets (notepad_objs h ! this)) (NotepadOptions.assets opts)) []\<rparr>]\<rparr>)"
  by (simp add: clone_def new_Notepad_def Let_def)

lemma Notepad_addSection_unfold:
  "Notepad_addSection section this h =
     (length (notepad_objs h),
      h\<lparr>notepad_objs := notepad_objs h @
          [(notepad_objs h ! this)\<lparr>Notepad.sections := Notepad.sections (notepad_objs h ! this) @ [section]\<rparr>],
        section_objs := (section_objs h)
          [section := (section_objs h ! section)\<lparr>Section.parent := Some (NotepadRef (length (notepad_objs h)))\<rparr>]\<rparr>)"
  by (simp add: Notepad_addSection_def clone_unfold or_else_def spread_over_def or_default_def
        no_opts_def Let_def)

lemma Notepad_addAsset_unfold:
  "Notepad_addAsset asset this h =
     (length (notepad_objs h),
      h\<lparr>notepad_objs := notepad_objs h @
          [(notepad_objs h ! this)\<lparr>Notepad.assets := Notepad.assets (notepad_objs h ! this) @ [asset],
                                    Notepad.notepadAssets := Notepad.notepadAssets (notepad_objs h ! this) @ [uuid asset]\<rparr>]\<rparr>)"
  by (simp add: Notepad_addAsset_def clone_unfold or_else_def spread_over_def or_default_def
        no_opts_def Let_def)

lemma modified_unfold:
  "modified lm this h =
     (length (notepad_objs h),
      h\<lparr>notepad_objs := notepad_objs h @
          [(notepad_objs h ! this)\<lparr>Notepad.lastModified := or_default lm (now h)\<rparr>]\<rparr>)"
  by (simp add: modified_def clone_unfold or_else_def spread_over_def or_default_def no_opts_def Let_def)

subsection \<open>\<open>addSection\<close>\<close>

text \<open>
  Claim C3. For a notepad \<open>p\<close> and a section \<open>s\<close>, \<open>p2 = p.addSection(s)\<close> is a notepad
  whose sections are those of \<open>p\<close> followed by \<open>s\<close>, so \<open>s\<close> is the last of them, and
  afterwards the parent back-reference of \<open>s\<close> refers to \<open>p2\<close>, a new object, and not to
  \<open>p\<close>, which is as it was.
\<close>

theorem addSection_appends_and_links:
  assumes "this < length (notepad_objs h)" and "section < length (section_objs h)"
      and "Notepad_addSection section this h = (p2, h')"
  shows "Notepad.sections (notepad_objs h' ! p2) = Notepad.sections (notepad_objs h ! this) @ [section]
       \<and> last (Notepad.sections (notepad_objs h' ! p2)) = section
       \<and> Section.parent (section_objs h' ! section) = Some (NotepadRef p2)
       \<and> Section.parent (section_objs h' ! section) \<noteq> Some (NotepadRef this)
       \<and> p2 \<noteq> this
       \<and> p2 = length (notepad_objs h)
       \<and> notepad_objs h' ! this = notepad_objs h ! this"
  using assms by (auto simp: Notepad_addSection_unfold nth_append)

lemma asset_heap_eval:
  "asset_heap = \<lparr>notepad_objs =
        [\<lparr>Notepad.title = ''P'', lastModified = 7, sections = [], notepadAssets = [], assets = []\<rparr>,
         \<lparr>Notepad.title = ''P'', lastModified = 7, sections = [], notepadAssets = [''u1''], assets = [demo_asset]\<rparr>],
      section_objs = [], note_objs = [], now = 7\<rparr>"
  by (simp add: asset_heap_def Notepad_addAsset_unfold new_Notepad_def empty_heap_def no_opts_def or_else_def demo_asset_def)

subsection \<open>Assets\<close>

text \<open>
  Claim C9 as stated fails for \<open>clone\<close>, a public method of \<open>Notepad\<close>: on a notepad
  whose one asset was added by \<open>addAsset\<close>, \<open>clone({notepadAssets: []})\<close> returns a notepad
  that holds the asset and no identifier.
\<close>

theorem clone_breaks_assets_in_use:
  "assets_in_use (notepad_objs asset_heap ! 1) \<and>
   \<not> assets_in_use
        (notepad_objs (snd (apply_op (Clone (no_opts\<lparr>NotepadOptions.notepadAssets := Present []\<rparr>) None) 1 asset_heap))
          ! fst (apply_op (Clone (no_opts\<lparr>NotepadOptions.notepadAssets := Present []\<rparr>) None) 1 asset_heap))"
  by (simp add: asset_heap_eval clone_unfold assets_in_use_def or_else_def spread_over_def no_opts_def
        demo_asset_def)

text \<open>
  \<open>clone({notepadAssets: undefined})\<close> does the same: the key is spread over the
  receiver's list, and the constructor reads \<open>undefined || []\<close>.
\<close>

lemma clone_undefined_key:
  "Notepad.notepadAssets
     (notepad_objs (snd (clone (no_opts\<lparr>NotepadOptions.notepadAssets := Undefined\<rparr>) None 1 asset_heap)) ! 2) = []
   \<and> Notepad.assets
     (notepad_objs (snd (clone (no_opts\<lparr>NotepadOptions.notepadAssets := Undefined\<rparr>) None 1 asset_heap)) ! 2)
       = [demo_asset]
   \<and> Notepad.notepadAssets (notepad_objs (snd (clone no_opts None 1 asset_heap)) ! 2) = [''u1'']"
  by (simp add: asset_heap_eval clone_unfold or_else_def spread_over_def or_default_def no_opts_def)

text \<open>
  Claim C9, amended. For a notepad \<open>p\<close> and an asset \<open>a\<close>, \<open>p.addAsset(a)\<close> returns a
  notepad whose assets are those of \<open>p\<close> followed by \<open>a\<close> and whose \<open>notepadAssets\<close> are
  those of \<open>p\<close> followed by \<open>a.uuid\<close>. That every asset of a notepad has its uuid among
  the notepad's \<open>notepadAssets\<close> is preserved by \<open>addSection\<close>, \<open>addAsset\<close> and
  \<open>modified\<close>, and by \<open>clone\<close> when its options have neither the key \<open>assets\<close> nor
  the key \<open>notepadAssets\<close> (a key that holds \<open>undefined\<close> is a key: it replaces the
  receiver's list and the constructor takes the empty list); and no method changes a
  notepad that exists.
\<close>

theorem addAsset_appends_and_keeps_in_use:
  assumes "this < length (notepad_objs h)"
  shows "Notepad.assets (notepad_objs (snd (Notepad_addAsset asset this h)) ! fst (Notepad_addAsset asset this h))
           = Notepad.assets (notepad_objs h ! this) @ [asset]
       \<and> Notepad.notepadAssets (notepad_objs (snd (Notepad_addAsset asset this h)) ! fst (Notepad_addAsset asset this h))
           = Notepad.notepadAssets (notepad_objs h ! this) @ [uuid asset]
       \<and> (keeps_asset_lists op \<and> assets_in_use (notepad_objs h ! this)
            \<longrightarrow> assets_in_use (notepad_objs (snd (apply_op op this h)) ! fst (apply_op op this h)))
       \<and> (\<forall>q < length (notepad_objs h).
             notepad_objs (snd (apply_op op this h)) ! q = notepad_objs h ! q)"
proof -
  have a: "Notepad.assets (notepad_objs (snd (Notepad_addAsset asset this h)) ! fst (Notepad_addAsset asset this h))
           = Notepad.assets (notepad_objs h ! this) @ [asset]"
    by (simp add: Notepad_addAsset_unfold)
  have b: "Notepad.notepadAssets (notepad_objs (snd (Notepad_addAsset asset this h)) ! fst (Notepad_addAsset asset this h))
           = Notepad.notepadAssets (notepad_objs h ! this) @ [uuid asset]"
    by (simp add: Notepad_addAsset_unfold)
  have c: "keeps_asset_lists op \<and> assets_in_use (notepad_objs h ! this)
            \<longrightarrow> assets_in_use (notepad_objs (snd (apply_op op this h)) ! fst (apply_op op this h))"
    by (cases op)
       (auto simp: Notepad_addSection_unfold Notepad_addAsset_unfold modified_unfold clone_unfold
                   assets_in_use_def or_else_def spread_over_def)
  have d: "\<forall>q < length (notepad_objs h). notepad_objs (snd (apply_op op this h)) ! q = notepad_objs h ! q"
    by (cases op)
       (simp_all add: Notepad_addSection_unfold Notepad_addAsset_unfold modified_unfold clone_unfold nth_append)
  from a b c d show ?thesis by blast
qed

text \<open>
  A second asset added to the notepad of \<open>asset_heap\<close>, and that notepad cloned with no
  options.
\<close>

theorem addAsset_appends_and_keeps_in_use_witness:
  "(1::nat) < length (notepad_objs asset_heap)
   \<and> keeps_asset_lists (AddAsset \<lparr>uuid = ''u2'', data = ''gif''\<rparr>)
   \<and> keeps_asset_lists (Clone no_opts None)
   \<and> assets_in_use (notepad_objs asset_heap ! 1)
   \<and> Notepad.notepadAssets
        (notepad_objs (snd (Notepad_addAsset \<lparr>uuid = ''u2'', data = ''gif''\<rparr> 1 asset_heap)) ! 2)
       = [''u1'', ''u2'']
   \<and> assets_in_use
        (notepad_objs (snd (apply_op (AddAsset \<lparr>uuid = ''u2'', data = ''gif''\<rparr>) 1 asset_heap))
          ! fst (apply_op (AddAsset \<lparr>uuid = ''u2'', data = ''gif''\<rparr>) 1 asset_heap))
   \<and> assets_in_use
        (notepad_objs (snd (apply_op (Clone no_opts None) 1 asset_heap))
          ! fst (apply_op (Clone no_opts None) 1 asset_heap))"
proof -
  have v: "(1::nat) < length (notepad_objs asset_heap)" by (simp add: asset_heap_eval)
  have k: "keeps_asset_lists (AddAsset \<lparr>uuid = ''u2'', data = ''gif''\<rparr>)" by simp
  have k2: "keeps_asset_lists (Clone no_opts None)" by (simp add: no_opts_def)
  have i: "assets_in_use (notepad_objs asset_heap ! 1)"
    by (simp add: asset_heap_eval assets_in_use_def demo_asset_def)
  have f: "fst (Notepad_addAsset \<lparr>uuid = ''u2'', data = ''gif''\<rparr> 1 asset_heap) = 2"
    by (simp add: Notepad_addAsset_unfold asset_heap_eval)
  have n: "Notepad.notepadAssets (notepad_objs asset_heap ! 1) = [''u1'']"
    by (simp add: asset_heap_eval)
  note w = addAsset_appends_and_keeps_in_use[OF v, where asset = "\<lparr>uuid = ''u2'', data = ''gif''\<rparr>"
              and op = "AddAsset \<lparr>uuid = ''u2'', data = ''gif''\<rparr>"]
  note w2 = addAsset_appends_and_keeps_in_use[OF v, where asset = demo_asset
              and op = "Clone no_opts None"]
  from w f n have a: "Notepad.notepadAssets
        (notepad_objs (snd (Notepad_addAsset \<lparr>uuid = ''u2'', data = ''gif''\<rparr> 1 asset_heap)) ! 2)
       = [''u1'', ''u2'']" by simp
  from w k i have b: "assets_in_use
        (notepad_objs (snd (apply_op (AddAsset \<lparr>uuid = ''u2'', data = ''gif''\<rparr>) 1 asset_heap))
          ! fst (apply_op (AddAsset \<lparr>uuid = ''u2'', data = ''gif''\<rparr>) 1 asset_heap))" by blast
  from w2 k2 i have c: "assets_in_use
        (notepad_objs (snd (apply_op (Clone no_opts None) 1 asset_heap))
          ! fst (apply_op (Clone no_opts None) 1 asset_heap))" by blast
  from v k k2 i a b c show ?thesis by blast
qed

subsection \<open>Purity\<close>

lemma link_heap_eval:
  "link_heap = \<lparr>notepad_objs =
        [\<lparr>Notepad.title = ''P'', lastModified = 7, sections = [], notepadAssets = [], assets = []\<rparr>],
      section_objs = [\<lparr>Section.title = ''S'', sections = [], notes = [], internalRef = ''_s'', parent = None\<rparr>],
      note_objs = [], now = 7\<rparr>"
  by (simp add: link_heap_def new_Notepad_def new_Section_def empty_heap_def no_opts_def or_else_def)


text \<open>Claim C3 on the store \<open>link_heap\<close>: \<open>P.addSection(S)\<close>.\<close>

theorem addSection_appends_and_links_witness:
  "(0::nat) < length (notepad_objs link_heap) \<and> (0::nat) < length (section_objs link_heap)
   \<and> Notepad_addSection 0 0 link_heap = (1, snd (Notepad_addSection 0 0 link_heap))
   \<and> Notepad.sections (notepad_objs (snd (Notepad_addSection 0 0 link_heap)) ! 1) = [0]
   \<and> Section.parent (section_objs (snd (Notepad_addSection 0 0 link_heap)) ! 0) = Some (NotepadRef 1)"
proof -
  have v: "(0::nat) < length (notepad_objs link_heap)" "(0::nat) < length (section_objs link_heap)"
    by (simp_all add: link_heap_eval)
  have e: "Notepad_addSection 0 0 link_heap = (1, snd (Notepad_addSection 0 0 link_heap))"
    by (simp add: Notepad_addSection_unfold link_heap_eval)
  have s: "Notepad.sections (notepad_objs link_heap ! 0) = []" by (simp add: link_heap_eval)
  note w = addSection_appends_and_links[OF v e]
  have "Notepad.sections (notepad_objs (snd (Notepad_addSection 0 0 link_heap)) ! 1) =
        Notepad.sections (notepad_objs link_heap ! 0) @ [0]"
    using w by blast
  then have a: "Notepad.sections (notepad_objs (snd (Notepad_addSection 0 0 link_heap)) ! 1) = [0]"
    unfolding s by simp
  have b: "Section.parent (section_objs (snd (Notepad_addSection 0 0 link_heap)) ! 0) = Some (NotepadRef 1)"
    using w by blast
  from v e a b show ?thesis by blast
qed

lemma Section_addSection_unfold:
  "Section_addSection section this h =
     (length (section_objs h),
      h\<lparr>section_objs := (section_objs h @
          [(section_objs h ! this)\<lparr>Section.sections := Section.sections (section_objs h ! this) @ [section]\<rparr>])
          [section := ((section_objs h @
             [(section_objs h ! this)\<lparr>Section.sections := Section.sections (section_objs h ! this) @ [section]\<rparr>])
               ! section)\<lparr>Section.parent := Some (SectionRef (length (section_objs h)))\<rparr>]\<rparr>)"
  by (simp add: Section_addSection_def Let_def)

lemma Section_addNote_unfold:
  "Section_addNote note this h =
     (length (section_objs h),
      h\<lparr>section_objs := section_objs h @
          [(section_objs h ! this)\<lparr>Section.notes := Section.notes (section_objs h ! this) @ [note]\<rparr>],
        note_objs := (note_objs h)
          [note := (note_objs h ! note)\<lparr>Note.parent := Some (SectionRef (length (section_objs h)))\<rparr>]\<rparr>)"
  by (simp add: Section_addNote_def Let_def)


subsection \<open>The descriptors \<open>flatten\<close> emits\<close>

lemma below_trans: "c \<in> below h q \<Longrightarrow> q \<in> below h s \<Longrightarrow> c \<in> below h s"
  by (induction rule: below.induct) (auto intro: below.intros)

lemma below_unfold:
  "below h s = insert s (\<Union>c \<in> set (Section.sections (section_objs h ! s)). below h c)"
proof (rule set_eqI, rule iffI)
  fix x assume "x \<in> below h s"
  then show "x \<in> insert s (\<Union>c \<in> set (Section.sections (section_objs h ! s)). below h c)"
  proof (induction rule: below.induct)
    case self
    then show ?case by simp
  next
    case (child q c)
    from child.IH show ?case
    proof
      assume "q = s"
      with child.hyps(2) have "c \<in> set (Section.sections (section_objs h ! s))" by simp
      moreover have "c \<in> below h c" by (rule below.self)
      ultimately show ?thesis by blast
    next
      assume "q \<in> (\<Union>c \<in> set (Section.sections (section_objs h ! s)). below h c)"
      then obtain d where d: "d \<in> set (Section.sections (section_objs h ! s))" "q \<in> below h d" by blast
      from d(2) child.hyps(2) have "c \<in> below h d" by (rule below.child)
      with d(1) show ?thesis by blast
    qed
  qed
next
  fix x assume "x \<in> insert s (\<Union>c \<in> set (Section.sections (section_objs h ! s)). below h c)"
  then consider "x = s" | d where "d \<in> set (Section.sections (section_objs h ! s))" "x \<in> below h d"
    by blast
  then show "x \<in> below h s"
  proof cases
    case 1
    then show ?thesis by (simp add: below.self)
  next
    case 2
    have "d \<in> below h s" using below.self 2(1) by (rule below.child)
    with 2(2) show ?thesis by (rule below_trans)
  qed
qed

lemma foldl_Trace_addNote: "foldl (\<lambda>np n. addNote Trace h n np) tr ns = tr"
  by (induction ns) (simp_all add: Trace_def)

lemma forEach_trace:
  assumes "\<And>s tr tr'. s \<in> set cs \<Longrightarrow> f s tr = Some tr' \<Longrightarrow>
             \<exists>ss. tr' = tr @ map (flat_descriptor h) ss \<and> set ss = below h s"
      and "forEach f cs tr = Some tr'"
  shows "\<exists>ss. tr' = tr @ map (flat_descriptor h) ss \<and> set ss = (\<Union>c \<in> set cs. below h c)"
  using assms
proof (induction cs arbitrary: tr)
  case Nil
  then show ?case by simp
next
  case (Cons c cs)
  from Cons.prems(2) obtain tr1 where t1: "f c tr = Some tr1" and t2: "forEach f cs tr1 = Some tr'"
    by (auto split: option.splits)
  from Cons.prems(1)[OF _ t1] obtain ss1 where s1: "tr1 = tr @ map (flat_descriptor h) ss1" "set ss1 = below h c"
    by auto
  have "\<exists>ss. tr' = tr1 @ map (flat_descriptor h) ss \<and> set ss = (\<Union>c \<in> set cs. below h c)"
    by (rule Cons.IH[OF _ t2]) (use Cons.prems(1) in auto)
  then obtain ss2 where s2: "tr' = tr1 @ map (flat_descriptor h) ss2" "set ss2 = (\<Union>c \<in> set cs. below h c)"
    by blast
  have "tr' = tr @ map (flat_descriptor h) (ss1 @ ss2) \<and> set (ss1 @ ss2) = (\<Union>c \<in> set (c # cs). below h c)"
    using s1 s2 by auto
  then show ?case by blast
qed

lemma flattenSection_trace:
  "flattenSection Trace fuel h s tr = Some tr' \<Longrightarrow>
     \<exists>ss. tr' = tr @ map (flat_descriptor h) ss \<and> set ss = below h s"
proof (induction fuel arbitrary: s tr tr')
  case 0
  then show ?case by simp
next
  case (Suc fuel)
  let ?cs = "Section.sections (section_objs h ! s)"
  from Suc.prems have fe: "forEach (flattenSection Trace fuel h) ?cs (tr @ [flat_descriptor h s]) = Some tr'"
    by (simp add: Let_def foldl_Trace_addNote) (simp add: Trace_def)
  have "\<exists>ss. tr' = (tr @ [flat_descriptor h s]) @ map (flat_descriptor h) ss \<and> set ss = (\<Union>c \<in> set ?cs. below h c)"
    by (rule forEach_trace[OF _ fe]) (rule Suc.IH)
  then obtain ss where ss: "tr' = (tr @ [flat_descriptor h s]) @ map (flat_descriptor h) ss"
      "set ss = (\<Union>c \<in> set ?cs. below h c)" by blast
  have "tr' = tr @ map (flat_descriptor h) (s # ss) \<and> set (s # ss) = below h s"
    using ss by (simp add: below_unfold[of h s])
  then show ?case by blast
qed

lemma flatten_trace:
  assumes "flatten Trace fuel this h = Some ds"
  shows "set ds = flat_descriptor h ` tree_sections h this"
proof -
  from assms have fe: "forEach (flattenSection Trace fuel h) (Notepad.sections (notepad_objs h ! this)) [] = Some ds"
    by (simp add: flatten_def Let_def Trace_def)
  have "\<exists>ss. ds = [] @ map (flat_descriptor h) ss \<and>
          set ss = (\<Union>c \<in> set (Notepad.sections (notepad_objs h ! this)). below h c)"
    by (rule forEach_trace[OF _ fe]) (rule flattenSection_trace)
  then obtain ss where ss: "ds = map (flat_descriptor h) ss"
      "set ss = (\<Union>c \<in> set (Notepad.sections (notepad_objs h ! this)). below h c)" by auto
  have "set ds = flat_descriptor h ` set ss" unfolding ss(1) by simp
  then show ?thesis unfolding ss(2) tree_sections_def .
qed

lemma forEach_Some:
  "(\<And>x st. x \<in> set xs \<Longrightarrow> f x st \<noteq> None) \<Longrightarrow> forEach f xs st \<noteq> None"
  by (induction xs arbitrary: st) (auto split: option.splits)

lemma flattenSection_returns:
  "children_older h \<Longrightarrow> s < length (section_objs h) \<Longrightarrow> s < fuel \<Longrightarrow>
     flattenSection F fuel h s np \<noteq> None"
proof (induction fuel arbitrary: s np)
  case 0
  then show ?case by simp
next
  case (Suc fuel)
  have "\<And>c st. c \<in> set (Section.sections (section_objs h ! s)) \<Longrightarrow> flattenSection F fuel h c st \<noteq> None"
  proof -
    fix c st assume "c \<in> set (Section.sections (section_objs h ! s))"
    with Suc.prems(1,2) have "c < s" by (auto simp: children_older_def)
    with Suc.prems show "flattenSection F fuel h c st \<noteq> None"
      by (intro Suc.IH) auto
  qed
  then show ?case by (simp add: Let_def forEach_Some)
qed

lemma flatten_returns:
  assumes "children_older h"
      and "\<forall>s \<in> set (Notepad.sections (notepad_objs h ! this)). s < length (section_objs h)"
  shows "flatten F (length (section_objs h)) this h \<noteq> None"
proof -
  have "\<And>x st. x \<in> set (Notepad.sections (notepad_objs h ! this)) \<Longrightarrow>
          flattenSection F (length (section_objs h)) h x st \<noteq> None"
  proof -
    fix x st assume "x \<in> set (Notepad.sections (notepad_objs h ! this))"
    with assms(2) have "x < length (section_objs h)" by blast
    with assms(1) show "flattenSection F (length (section_objs h)) h x st \<noteq> None"
      by (intro flattenSection_returns)
  qed
  then show ?thesis unfolding flatten_def Let_def by (rule forEach_Some)
qed

lemma parentRef_flat_descriptor:
  "parentRef (flat_descriptor h s) = Some r \<longleftrightarrow>
     (\<exists>a. Section.parent (section_objs h ! s) = Some (SectionRef a) \<and>
          Section.internalRef (section_objs h ! a) = r)"
  by (auto simp: flat_descriptor_def Let_def split: option.splits Parent.splits)

text \<open>
  Claim C4, amended. On a store where every section is older than its parent, \<open>flatten\<close>
  returns. When it returns it has emitted exactly the descriptors of the sections of the
  notepad's tree. The descriptor of a section has the section's title and \<open>internalRef\<close>,
  and it has a \<open>parentRef\<close> exactly when the section's parent back-reference is a
  section, the \<open>parentRef\<close> being that section's \<open>internalRef\<close>. So the descriptor of a
  top-level section has no \<open>parentRef\<close> when the section's parent back-reference is
  unset or a notepad, as \<open>Notepad.addSection\<close> leaves it.
\<close>

theorem flatten_descriptors:
  "(children_older h \<and> (\<forall>s \<in> set (Notepad.sections (notepad_objs h ! this)). s < length (section_objs h))
      \<longrightarrow> (\<exists>ds. flatten Trace (length (section_objs h)) this h = Some ds))
   \<and> (\<forall>ds. flatten Trace fuel this h = Some ds \<longrightarrow>
         set ds = flat_descriptor h ` tree_sections h this)
   \<and> (\<forall>s. FlatSection.title (flat_descriptor h s) = Section.title (section_objs h ! s)
         \<and> FlatSection.internalRef (flat_descriptor h s) = Section.internalRef (section_objs h ! s)
         \<and> (\<forall>r. parentRef (flat_descriptor h s) = Some r \<longleftrightarrow>
               (\<exists>a. Section.parent (section_objs h ! s) = Some (SectionRef a) \<and>
                    Section.internalRef (section_objs h ! a) = r)))
   \<and> (\<forall>s \<in> set (Notepad.sections (notepad_objs h ! this)).
         (\<forall>a. Section.parent (section_objs h ! s) \<noteq> Some (SectionRef a))
           \<longrightarrow> parentRef (flat_descriptor h s) = None)"
proof (intro conjI allI impI ballI)
  assume "children_older h \<and> (\<forall>s \<in> set (Notepad.sections (notepad_objs h ! this)). s < length (section_objs h))"
  then have "flatten Trace (length (section_objs h)) this h \<noteq> None"
    by (intro flatten_returns) auto
  then show "\<exists>ds. flatten Trace (length (section_objs h)) this h = Some ds" by blast
next
  fix ds assume "flatten Trace fuel this h = Some ds"
  then show "set ds = flat_descriptor h ` tree_sections h this" by (rule flatten_trace)
next
  fix s show "FlatSection.title (flat_descriptor h s) = Section.title (section_objs h ! s)"
    by (simp add: flat_descriptor_def Let_def)
next
  fix s show "FlatSection.internalRef (flat_descriptor h s) = Section.internalRef (section_objs h ! s)"
    by (simp add: flat_descriptor_def Let_def)
next
  fix s r show "parentRef (flat_descriptor h s) = Some r \<longleftrightarrow>
               (\<exists>a. Section.parent (section_objs h ! s) = Some (SectionRef a) \<and>
                    Section.internalRef (section_objs h ! a) = r)"
    by (rule parentRef_flat_descriptor)
next
  fix s assume "\<forall>a. Section.parent (section_objs h ! s) \<noteq> Some (SectionRef a)"
  then have "\<And>r. parentRef (flat_descriptor h s) \<noteq> Some r"
    by (simp add: parentRef_flat_descriptor)
  then show "parentRef (flat_descriptor h s) = None" by (cases "parentRef (flat_descriptor h s)") auto
qed

lemma shared_section_eval:
  "shared_section = (1, \<lparr>notepad_objs =
        [\<lparr>Notepad.title = ''P'', lastModified = 7, sections = [], notepadAssets = [], assets = []\<rparr>,
         \<lparr>Notepad.title = ''P'', lastModified = 7, sections = [0], notepadAssets = [], assets = []\<rparr>],
      section_objs =
        [\<lparr>Section.title = ''S'', sections = [], notes = [], internalRef = ''_s'', parent = Some (SectionRef 2)\<rparr>,
         \<lparr>Section.title = ''A'', sections = [], notes = [], internalRef = ''_a'', parent = None\<rparr>,
         \<lparr>Section.title = ''A'', sections = [0], notes = [], internalRef = ''_a'', parent = None\<rparr>],
      note_objs = [], now = 7\<rparr>)"
  by (simp add: shared_section_def Notepad_addSection_unfold Section_addSection_unfold new_Notepad_def
        new_Section_def empty_heap_def no_opts_def or_else_def Let_def)

lemma addSection_Trace: "addSection Trace flat tr = tr @ [flat]"
  by (simp add: Trace_def)

lemma flatten_Trace_unfold:
  "flatten Trace fuel this h =
     forEach (flattenSection Trace fuel h) (Notepad.sections (notepad_objs h ! this)) []"
  by (simp add: flatten_def Trace_def Let_def)

lemma flattenSection_Trace_Suc:
  "flattenSection Trace (Suc fuel) h s tr =
     forEach (flattenSection Trace fuel h) (Section.sections (section_objs h ! s)) (tr @ [flat_descriptor h s])"
  by (simp add: Let_def foldl_Trace_addNote) (simp add: Trace_def)

text \<open>
  Claim C4 as stated fails where a top-level section has a section as its parent
  back-reference. After \<open>p2 = p.addSection(s); a2 = a.addSection(s)\<close> the one top-level
  section of \<open>p2\<close> is \<open>s\<close>, and its descriptor has the \<open>parentRef\<close> of \<open>a\<close>.
\<close>

theorem flatten_top_level_with_parentRef:
  "Notepad.sections (notepad_objs (snd shared_section) ! fst shared_section) = [0]
   \<and> flatten Trace 2 (fst shared_section) (snd shared_section) =
       Some [\<lparr>FlatSection.title = ''S'', internalRef = ''_s'', parentRef = Some ''_a''\<rparr>]"
proof -
  have n: "(2::nat) = Suc (Suc 0)" by simp
  show ?thesis
    unfolding n flatten_Trace_unfold
    by (simp add: shared_section_eval addSection_Trace flat_descriptor_def)
qed

lemma linked_heap_eval:
  "linked_heap = \<lparr>notepad_objs =
        [\<lparr>Notepad.title = ''P'', lastModified = 7, sections = [], notepadAssets = [], assets = []\<rparr>,
         \<lparr>Notepad.title = ''P'', lastModified = 7, sections = [0], notepadAssets = [], assets = []\<rparr>],
      section_objs = [\<lparr>Section.title = ''S'', sections = [], notes = [], internalRef = ''_s'',
                       parent = Some (NotepadRef 1)\<rparr>],
      note_objs = [], now = 7\<rparr>"
  by (simp add: linked_heap_def Notepad_addSection_unfold link_heap_eval)

text \<open>Claim C4, amended, on the store after \<open>P.addSection(S)\<close>.\<close>

theorem flatten_descriptors_witness:
  "children_older linked_heap
   \<and> Notepad.sections (notepad_objs linked_heap ! 1) = [0]
   \<and> (0::nat) < length (section_objs linked_heap)
   \<and> flatten Trace (length (section_objs linked_heap)) 1 linked_heap =
       Some [\<lparr>FlatSection.title = ''S'', internalRef = ''_s'', parentRef = None\<rparr>]
   \<and> (\<forall>a. Section.parent (section_objs linked_heap ! 0) \<noteq> Some (SectionRef a))
   \<and> parentRef (flat_descriptor linked_heap 0) = None"
proof -
  have c: "children_older linked_heap" by (simp add: children_older_def linked_heap_eval)
  have v: "\<forall>s \<in> set (Notepad.sections (notepad_objs linked_heap ! 1)). s < length (section_objs linked_heap)"
    by (simp add: linked_heap_eval)
  have l: "length (section_objs linked_heap) = Suc 0" by (simp add: linked_heap_eval)
  have f: "flatten Trace (length (section_objs linked_heap)) 1 linked_heap =
       Some [\<lparr>FlatSection.title = ''S'', internalRef = ''_s'', parentRef = None\<rparr>]"
    unfolding l flatten_Trace_unfold
    by (simp add: linked_heap_eval addSection_Trace flat_descriptor_def)
  have t: "(0::nat) \<in> set (Notepad.sections (notepad_objs linked_heap ! 1))" by (simp add: linked_heap_eval)
  have p: "\<forall>a. Section.parent (section_objs linked_heap ! 0) \<noteq> Some (SectionRef a)"
    by (simp add: linked_heap_eval)
  note w = flatten_descriptors[of linked_heap 1 0]
  from w t p have "parentRef (flat_descriptor linked_heap 0) = None" by blast
  moreover have "Notepad.sections (notepad_objs linked_heap ! 1) = [0]"
    "(0::nat) < length (section_objs linked_heap)"
    by (simp_all add: linked_heap_eval)
  ultimately show ?thesis using c f p by blast
qed



subsection \<open>Searching a note\<close>

lemma hashtags_in_tokens:
  "t \<in> set (hashtags_in s) \<Longrightarrow>
     (\<exists>w. t = CHR ''#'' # w \<and> w \<noteq> [] \<and> (\<forall>c \<in> set w. is_word_char c)) \<and> sublist t s"
proof (induction s)
  case Nil
  then show ?case by simp
next
  case (Cons c cs)
  show ?case
  proof (cases "t = c # takeWhile is_word_char cs \<and> c = CHR ''#'' \<and> takeWhile is_word_char cs \<noteq> []")
    case True
    have "prefix (c # takeWhile is_word_char cs) (c # cs)"
      by (simp add: takeWhile_is_prefix)
    then have "sublist t (c # cs)" using True by (simp add: sublist_Cons_right)
    moreover have "\<forall>x \<in> set (takeWhile is_word_char cs). is_word_char x"
      by (auto dest: set_takeWhileD)
    ultimately show ?thesis using True by blast
  next
    case False
    with Cons.prems have "t \<in> set (hashtags_in cs)" by (auto split: if_splits)
    with Cons.IH have "(\<exists>w. t = CHR ''#'' # w \<and> w \<noteq> [] \<and> (\<forall>c \<in> set w. is_word_char c)) \<and> sublist t cs"
      by blast
    then show ?thesis by (auto simp: sublist_Cons_right)
  qed
qed

text \<open>
  Claim C5. \<open>search\<close> with the empty query returns the note itself. With a non-empty
  query that does not start with \<open>#\<close> it returns the note if the query, in lower case,
  is a substring of the title in lower case, and the empty list otherwise. With a query
  that starts with \<open>#\<close> it returns the note if the query is one of the note's hashtags
  and the empty list otherwise; so a query that is only a prefix of a hashtag, and not a
  hashtag of the note itself, returns the empty list.
\<close>

theorem Note_search_cases:
  "Note_search [] this h = [this]
   \<and> (query \<noteq> [] \<and> charAt0 query \<noteq> ''#'' \<longrightarrow>
        Note_search query this h =
          (if sublist (toLowerCase query) (toLowerCase (Note.title (note_objs h ! this)))
           then [this] else []))
   \<and> (charAt0 query = ''#'' \<longrightarrow>
        Note_search query this h =
          (if query \<in> set (getHashtags (note_objs h ! this)) then [this] else []))
   \<and> (charAt0 query = ''#'' \<and> query \<notin> set (getHashtags (note_objs h ! this)) \<longrightarrow>
        Note_search query this h = [])"
  by (auto simp: Note_search_def includes_str_def charAt0_def Let_def)

lemma test_note_heap_eval:
  "note_objs test_note_heap ! Suc 0 =
     \<lparr>Note.title = ''test'', time = 0,
      elements = [\<lparr>type = ''markdown'', content = ''#match'', args = []\<rparr>],
      bibliography = [], internalRef = ''_t'', parent = None\<rparr>"
  by (simp add: test_note_heap_def Note_addElement_def new_Note_def empty_heap_def Let_def)

lemma test_note_0:
  "note_objs test_note_heap ! 0 =
     \<lparr>Note.title = ''test'', time = 0, elements = [], bibliography = [], internalRef = ''_t'',
      parent = None\<rparr>"
  by (simp add: test_note_heap_def Note_addElement_def new_Note_def empty_heap_def Let_def)

lemma getHashtags_test_note: "getHashtags (note_objs test_note_heap ! Suc 0) = [''#match'']"
  by (simp add: test_note_heap_eval getHashtags_def is_word_char_def)

text \<open>The example of \<open>getHashtags\<close> in the spec and the tests.\<close>

lemma getHashtags_spec_example:
  "getHashtags \<lparr>Note.title = ''test'', time = 0,
      elements = [\<lparr>type = ''markdown'',
                    content = ''Hello.'' @ [CHR 0x0A, CHR 0x0A] @ ''There is #todo here.'', args = []\<rparr>,
                  \<lparr>type = ''markdown'', content = ''We have #blah and #bloop here.'', args = []\<rparr>],
      bibliography = [], internalRef = ''_t'', parent = None\<rparr>
   = [''#todo'', ''#blah'', ''#bloop'']"
  by (simp add: getHashtags_def is_word_char_def)

text \<open>Claim C5 on the queries of the tests of \<open>Note.search\<close>.\<close>

theorem Note_search_cases_witness:
  "Note_search ''#mat'' 1 test_note_heap = []
   \<and> Note_search ''#match'' 1 test_note_heap = [1]
   \<and> Note_search ''te'' 0 test_note_heap = [0]
   \<and> Note_search ''invalid'' 0 test_note_heap = []
   \<and> Note_search [] 0 test_note_heap = [0]
   \<and> Note_search ''#test'' 0 test_note_heap = []"
proof -
  have g0: "getHashtags (note_objs test_note_heap ! 0) = []"
    by (simp add: test_note_0 getHashtags_def)
  have t0: "toLowerCase (Note.title (note_objs test_note_heap ! 0)) = ''test''"
    by (simp add: test_note_0 toLowerCase_def)
  have l1: "toLowerCase ''te'' = ''te''" by (simp add: toLowerCase_def)
  have l2: "toLowerCase ''invalid'' = ''invalid''" by (simp add: toLowerCase_def)
  have a: "Note_search ''#mat'' 1 test_note_heap = []"
    using Note_search_cases[of 1 test_note_heap "''#mat''"] by (simp add: getHashtags_test_note charAt0_def)
  have b: "Note_search ''#match'' 1 test_note_heap = [1]"
    using Note_search_cases[of 1 test_note_heap "''#match''"] by (simp add: getHashtags_test_note charAt0_def)
  have c: "Note_search ''te'' 0 test_note_heap = [0]"
    using Note_search_cases[of 0 test_note_heap "''te''"]
    by (simp add: t0 l1 sublist_Cons_right charAt0_def)
  have d: "Note_search ''invalid'' 0 test_note_heap = []"
    using Note_search_cases[of 0 test_note_heap "''invalid''"]
    by (simp add: t0 l2 sublist_Cons_right charAt0_def)
  have e: "Note_search [] 0 test_note_heap = [0]"
    using Note_search_cases[of 0 test_note_heap "[]"] by simp
  have f: "Note_search ''#test'' 0 test_note_heap = []"
    using Note_search_cases[of 0 test_note_heap "''#test''"] by (simp add: g0 charAt0_def)
  from a b c d e f show ?thesis by blast
qed

section \<open>The round trip through the flat form\<close>

subsection \<open>Writing entries into a mapping\<close>

lemma update_fresh: "k \<notin> fst ` set al \<Longrightarrow> AList.update k v al = al @ [(k, v)]"
  by (induction al) auto

lemma upd_all_fresh:
  "distinct (map kf xs) \<Longrightarrow> set (map kf xs) \<inter> fst ` set al = {} \<Longrightarrow>
     upd_all kf xs al = al @ map (\<lambda>x. (kf x, x)) xs"
proof (induction xs arbitrary: al)
  case Nil
  then show ?case by (simp add: upd_all_def)
next
  case (Cons x xs)
  have f: "kf x \<notin> fst ` set al" using Cons.prems(2) by auto
  have "upd_all kf (x # xs) al = upd_all kf xs (al @ [(kf x, x)])"
    by (simp add: upd_all_def update_fresh[OF f])
  also have "\<dots> = (al @ [(kf x, x)]) @ map (\<lambda>x. (kf x, x)) xs"
    using Cons.prems by (intro Cons.IH) auto
  finally show ?case by simp
qed

lemma upd_all_append: "upd_all kf (xs @ ys) al = upd_all kf ys (upd_all kf xs al)"
  by (simp add: upd_all_def)

lemma upd_all_Cons: "upd_all kf (x # xs) al = upd_all kf xs (AList.update (kf x) x al)"
  by (simp add: upd_all_def)

lemma upd_all_Nil: "upd_all kf [] al = al"
  by (simp add: upd_all_def)

lemma map_internalRef_entries: "map FlatSection.internalRef (entries p t) = refs t"
proof (induction t arbitrary: p)
  case (STree t r ns cs)
  have "concat (map (\<lambda>c. map FlatSection.internalRef (entries (Some r) c)) cs) = concat (map refs cs)"
    by (rule arg_cong[where f = concat], rule map_cong) (use STree.IH in auto)
  then show ?case by (simp add: root_entry_def map_concat comp_def)
qed

lemma map_internalRef_fnotes: "map FlatNote.internalRef (fnotes t) = note_refs t"
proof (induction t)
  case (STree t r ns cs)
  have "concat (map (\<lambda>c. map FlatNote.internalRef (fnotes c)) cs) = concat (map note_refs cs)"
    by (rule arg_cong[where f = concat], rule map_cong) (use STree.IH in auto)
  then show ?case by (simp add: to_flat_def map_concat comp_def)
qed

lemma set_refs_nodes: "set (refs t) = st_ref ` set (nodes t)"
proof (induction t)
  case (STree t r ns cs)
  then show ?case by auto
qed

subsection \<open>The flat sections with a given parent link\<close>

lemma filter_parent_outside:
  "r \<notin> set (refs t) \<Longrightarrow>
     filter (\<lambda>c. parentRef c = Some r) (entries p t) = (if p = Some r then [root_entry p t] else [])"
proof (induction t arbitrary: p)
  case (STree tt r0 ns cs)
  have r0: "r \<noteq> r0" and rc: "\<And>c. c \<in> set cs \<Longrightarrow> r \<notin> set (refs c)"
    using STree.prems by auto
  have "\<And>c. c \<in> set cs \<Longrightarrow> filter (\<lambda>c. parentRef c = Some r) (entries (Some r0) c) = []"
    using STree.IH rc r0 by simp
  then have "concat (map (\<lambda>c. filter (\<lambda>c. parentRef c = Some r) (entries (Some r0) c)) cs) = []"
    by simp
  then show ?case by (simp add: filter_concat comp_def root_entry_def)
qed

lemma filter_parent_roots:
  "r \<notin> set (concat (map refs cs)) \<Longrightarrow>
     filter (\<lambda>c. parentRef c = Some r) (concat (map (entries (Some r)) cs)) = map (root_entry (Some r)) cs"
  by (induction cs) (simp_all add: filter_parent_outside)

lemma filter_parent_forest_outside:
  "r \<notin> set (concat (map refs ts)) \<Longrightarrow> p \<noteq> Some r \<Longrightarrow>
     filter (\<lambda>c. parentRef c = Some r) (concat (map (entries p) ts)) = []"
  by (induction ts) (simp_all add: filter_parent_outside)

lemma st_ref_in_refs: "x \<in> set (nodes t) \<Longrightarrow> st_ref x \<in> set (refs t)"
  by (simp add: set_refs_nodes)

lemma filter_parent_forest_aux:
  assumes tree: "\<And>c p. c \<in> set ts \<Longrightarrow> distinct (refs c) \<Longrightarrow> p \<notin> Some ` set (refs c) \<Longrightarrow>
                   x \<in> set (nodes c) \<Longrightarrow>
                   filter (\<lambda>c. parentRef c = Some (st_ref x)) (entries p c) =
                     map (root_entry (Some (st_ref x))) (st_children x)"
      and "distinct (concat (map refs ts))"
      and "p \<notin> Some ` set (concat (map refs ts))"
      and "x \<in> set (concat (map nodes ts))"
  shows "filter (\<lambda>c. parentRef c = Some (st_ref x)) (concat (map (entries p) ts)) =
           map (root_entry (Some (st_ref x))) (st_children x)"
  using assms
proof (induction ts)
  case Nil
  then show ?case by simp
next
  case (Cons c ts)
  have dc': "distinct (refs c)" "distinct (concat (map refs ts))"
      "set (refs c) \<inter> set (concat (map refs ts)) = {}"
    using Cons.prems(2) by auto
  have pc: "p \<notin> Some ` set (refs c)" "p \<notin> Some ` set (concat (map refs ts))"
    using Cons.prems(3) by auto
  show ?case
  proof (cases "x \<in> set (nodes c)")
    case True
    then have xr: "st_ref x \<in> set (refs c)" by (rule st_ref_in_refs)
    have a: "filter (\<lambda>c. parentRef c = Some (st_ref x)) (entries p c) =
               map (root_entry (Some (st_ref x))) (st_children x)"
      using Cons.prems(1)[OF _ dc'(1) pc(1) True] by simp
    have "st_ref x \<notin> set (concat (map refs ts))" using xr dc'(3) by auto
    moreover have "p \<noteq> Some (st_ref x)" using xr pc(1) by auto
    ultimately have b: "filter (\<lambda>c. parentRef c = Some (st_ref x)) (concat (map (entries p) ts)) = []"
      by (rule filter_parent_forest_outside)
    show ?thesis using a b by simp
  next
    case False
    with Cons.prems(4) have xin: "x \<in> set (concat (map nodes ts))" by auto
    then obtain c' where "c' \<in> set ts" "x \<in> set (nodes c')" by auto
    then have xr: "st_ref x \<in> set (concat (map refs ts))"
      using st_ref_in_refs by fastforce
    then have "st_ref x \<notin> set (refs c)" using dc'(3) by auto
    moreover have pn: "p \<noteq> Some (st_ref x)" using xr pc(2) by auto
    ultimately have a: "filter (\<lambda>c. parentRef c = Some (st_ref x)) (entries p c) = []"
      by (simp add: filter_parent_outside)
    have b: "filter (\<lambda>c. parentRef c = Some (st_ref x)) (concat (map (entries p) ts)) =
               map (root_entry (Some (st_ref x))) (st_children x)"
      by (rule Cons.IH[OF _ dc'(2) pc(2) xin]) (use Cons.prems(1) in auto)
    show ?thesis using a b by simp
  qed
qed

lemma filter_parent_node:
  "distinct (refs t) \<Longrightarrow> p \<notin> Some ` set (refs t) \<Longrightarrow> x \<in> set (nodes t) \<Longrightarrow>
     filter (\<lambda>c. parentRef c = Some (st_ref x)) (entries p t) =
       map (root_entry (Some (st_ref x))) (st_children x)"
proof (induction t arbitrary: p x)
  case (STree tt r0 ns cs)
  have d0: "r0 \<notin> set (concat (map refs cs))" and dc: "distinct (concat (map refs cs))"
    using STree.prems(1) by auto
  have pr: "p \<noteq> Some r0" using STree.prems(2) by auto
  show ?case
  proof (cases "x = STree tt r0 ns cs")
    case True
    show ?thesis using pr d0 by (simp add: True root_entry_def filter_parent_roots)
  next
    case False
    with STree.prems(3) have xin: "x \<in> set (concat (map nodes cs))" by auto
    then obtain c' where "c' \<in> set cs" "x \<in> set (nodes c')" by auto
    then have xr: "st_ref x \<in> set (concat (map refs cs))" using st_ref_in_refs by fastforce
    have px: "p \<noteq> Some (st_ref x)" using STree.prems(2) xr by auto
    have p0: "Some r0 \<notin> Some ` set (concat (map refs cs))" using d0 by auto
    have "filter (\<lambda>c. parentRef c = Some (st_ref x)) (concat (map (entries (Some r0)) cs)) =
             map (root_entry (Some (st_ref x))) (st_children x)"
      by (rule filter_parent_forest_aux[OF _ dc p0 xin]) (rule STree.IH)
    with px show ?thesis by (simp add: root_entry_def)
  qed
qed

lemma filter_parent_forest:
  assumes "distinct (concat (map refs ts))" and "x \<in> set (concat (map nodes ts))"
  shows "filter (\<lambda>c. parentRef c = Some (st_ref x)) (concat (map (entries None) ts)) =
           map (root_entry (Some (st_ref x))) (st_children x)"
  by (rule filter_parent_forest_aux[OF _ assms(1) _ assms(2)]) (auto intro: filter_parent_node)

lemma filter_roots_tree:
  "filter (\<lambda>c. parentRef c = None) (entries p t) = (if p = None then [root_entry p t] else [])"
proof (induction t arbitrary: p)
  case (STree tt r0 ns cs)
  have "\<And>c. c \<in> set cs \<Longrightarrow> filter (\<lambda>c. parentRef c = None) (entries (Some r0) c) = []"
    using STree.IH by simp
  then have "concat (map (\<lambda>c. filter (\<lambda>c. parentRef c = None) (entries (Some r0) c)) cs) = []"
    by simp
  then show ?case by (simp add: filter_concat comp_def root_entry_def)
qed

lemma filter_roots_forest:
  "filter (\<lambda>c. parentRef c = None) (concat (map (entries None) ts)) = map (root_entry None) ts"
  by (induction ts) (simp_all add: filter_roots_tree)

lemma parentRef_entries:
  "e \<in> set (entries p t) \<Longrightarrow> parentRef e = p \<or> parentRef e \<in> Some ` set (refs t)"
proof (induction t arbitrary: p)
  case (STree tt r0 ns cs)
  show ?case
  proof (cases "e = root_entry p (STree tt r0 ns cs)")
    case True
    then show ?thesis by (simp add: root_entry_def)
  next
    case False
    with STree.prems obtain c where c: "c \<in> set cs" "e \<in> set (entries (Some r0) c)" by auto
    from STree.IH[OF c] c(1) show ?thesis by auto
  qed
qed

subsection \<open>The flat notes with a given parent link\<close>

lemma filter_notes_outside:
  "r \<notin> set (refs t) \<Longrightarrow> filter (\<lambda>n. FlatNote.parent n = Some r) (fnotes t) = []"
proof (induction t)
  case (STree tt r0 ns cs)
  have "\<And>c. c \<in> set cs \<Longrightarrow> filter (\<lambda>n. FlatNote.parent n = Some r) (fnotes c) = []"
    using STree.IH STree.prems by simp
  then have "concat (map (\<lambda>c. filter (\<lambda>n. FlatNote.parent n = Some r) (fnotes c)) cs) = []"
    by simp
  moreover have "filter (\<lambda>n. FlatNote.parent n = Some r) (map (to_flat (Some r0)) ns) = []"
    using STree.prems by (auto simp: to_flat_def filter_empty_conv)
  ultimately show ?case by (simp add: filter_concat comp_def)
qed

lemma filter_notes_forest_outside:
  "r \<notin> set (concat (map refs ts)) \<Longrightarrow>
     filter (\<lambda>n. FlatNote.parent n = Some r) (concat (map fnotes ts)) = []"
  by (induction ts) (simp_all add: filter_notes_outside)

lemma filter_notes_forest_aux:
  assumes tree: "\<And>c. c \<in> set ts \<Longrightarrow> distinct (refs c) \<Longrightarrow> x \<in> set (nodes c) \<Longrightarrow>
                   filter (\<lambda>n. FlatNote.parent n = Some (st_ref x)) (fnotes c) =
                     map (to_flat (Some (st_ref x))) (st_notes x)"
      and "distinct (concat (map refs ts))"
      and "x \<in> set (concat (map nodes ts))"
  shows "filter (\<lambda>n. FlatNote.parent n = Some (st_ref x)) (concat (map fnotes ts)) =
           map (to_flat (Some (st_ref x))) (st_notes x)"
  using assms
proof (induction ts)
  case Nil
  then show ?case by simp
next
  case (Cons c ts)
  have dc': "distinct (refs c)" "distinct (concat (map refs ts))"
      "set (refs c) \<inter> set (concat (map refs ts)) = {}"
    using Cons.prems(2) by auto
  show ?case
  proof (cases "x \<in> set (nodes c)")
    case True
    then have xr: "st_ref x \<in> set (refs c)" by (rule st_ref_in_refs)
    have a: "filter (\<lambda>n. FlatNote.parent n = Some (st_ref x)) (fnotes c) =
               map (to_flat (Some (st_ref x))) (st_notes x)"
      using Cons.prems(1)[OF _ dc'(1) True] by simp
    have "st_ref x \<notin> set (concat (map refs ts))" using xr dc'(3) by auto
    then have b: "filter (\<lambda>n. FlatNote.parent n = Some (st_ref x)) (concat (map fnotes ts)) = []"
      by (rule filter_notes_forest_outside)
    show ?thesis using a b by simp
  next
    case False
    with Cons.prems(3) have xin: "x \<in> set (concat (map nodes ts))" by auto
    then obtain c' where "c' \<in> set ts" "x \<in> set (nodes c')" by auto
    then have xr: "st_ref x \<in> set (concat (map refs ts))"
      using st_ref_in_refs by fastforce
    then have "st_ref x \<notin> set (refs c)" using dc'(3) by auto
    then have a: "filter (\<lambda>n. FlatNote.parent n = Some (st_ref x)) (fnotes c) = []"
      by (rule filter_notes_outside)
    have b: "filter (\<lambda>n. FlatNote.parent n = Some (st_ref x)) (concat (map fnotes ts)) =
               map (to_flat (Some (st_ref x))) (st_notes x)"
      by (rule Cons.IH[OF _ dc'(2) xin]) (use Cons.prems(1) in auto)
    show ?thesis using a b by simp
  qed
qed

lemma filter_notes_node:
  "distinct (refs t) \<Longrightarrow> x \<in> set (nodes t) \<Longrightarrow>
     filter (\<lambda>n. FlatNote.parent n = Some (st_ref x)) (fnotes t) =
       map (to_flat (Some (st_ref x))) (st_notes x)"
proof (induction t arbitrary: x)
  case (STree tt r0 ns cs)
  have d0: "r0 \<notin> set (concat (map refs cs))" and dc: "distinct (concat (map refs cs))"
    using STree.prems(1) by auto
  show ?case
  proof (cases "x = STree tt r0 ns cs")
    case True
    have "filter (\<lambda>n. FlatNote.parent n = Some r0) (map (to_flat (Some r0)) ns) = map (to_flat (Some r0)) ns"
      by (simp add: to_flat_def filter_id_conv)
    then show ?thesis using d0 by (simp add: True filter_notes_forest_outside)
  next
    case False
    with STree.prems(2) have xin: "x \<in> set (concat (map nodes cs))" by auto
    then obtain c' where "c' \<in> set cs" "x \<in> set (nodes c')" by auto
    then have xr: "st_ref x \<in> set (concat (map refs cs))" using st_ref_in_refs by fastforce
    then have "st_ref x \<noteq> r0" using d0 by auto
    then have "filter (\<lambda>n. FlatNote.parent n = Some (st_ref x)) (map (to_flat (Some r0)) ns) = []"
      by (simp add: to_flat_def filter_empty_conv)
    moreover have "filter (\<lambda>n. FlatNote.parent n = Some (st_ref x)) (concat (map fnotes cs)) =
             map (to_flat (Some (st_ref x))) (st_notes x)"
      by (rule filter_notes_forest_aux[OF _ dc xin]) (rule STree.IH)
    ultimately show ?thesis by simp
  qed
qed

lemma filter_notes_forest:
  assumes "distinct (concat (map refs ts))" and "x \<in> set (concat (map nodes ts))"
  shows "filter (\<lambda>n. FlatNote.parent n = Some (st_ref x)) (concat (map fnotes ts)) =
           map (to_flat (Some (st_ref x))) (st_notes x)"
  by (rule filter_notes_forest_aux[OF _ assms]) (auto intro: filter_notes_node)

lemma height_le_refs: "height t \<le> length (refs t)"
proof (induction t)
  case (STree tt r0 ns cs)
  have "foldr max (map height cs) 0 \<le> length (concat (map refs cs))"
    using STree.IH
  proof (induction cs)
    case Nil
    then show ?case by simp
  next
    case (Cons c cs)
    have "height c \<le> length (refs c)" using Cons.prems by simp
    moreover have "foldr max (map height cs) 0 \<le> length (concat (map refs cs))"
      using Cons by simp
    ultimately show ?case by simp
  qed
  then show ?case by simp
qed

lemma height_child: "c \<in> set cs \<Longrightarrow> height c \<le> foldr max (map height cs) 0"
  by (induction cs) auto

subsection \<open>Stores that extend a store, and rebuilding a section\<close>

lemma section_view_eqD:
  assumes "section_view h' s' = section_view h s"
  shows "Section.title (section_objs h' ! s') = Section.title (section_objs h ! s)"
    and "Section.sections (section_objs h' ! s') = Section.sections (section_objs h ! s)"
    and "Section.notes (section_objs h' ! s') = Section.notes (section_objs h ! s)"
    and "Section.internalRef (section_objs h' ! s') = Section.internalRef (section_objs h ! s)"
proof -
  have "Section.title (section_view h' s') = Section.title (section_view h s)"
       "Section.sections (section_view h' s') = Section.sections (section_view h s)"
       "Section.notes (section_view h' s') = Section.notes (section_view h s)"
       "Section.internalRef (section_view h' s') = Section.internalRef (section_view h s)"
    using assms by simp_all
  then show "Section.title (section_objs h' ! s') = Section.title (section_objs h ! s)"
    and "Section.sections (section_objs h' ! s') = Section.sections (section_objs h ! s)"
    and "Section.notes (section_objs h' ! s') = Section.notes (section_objs h ! s)"
    and "Section.internalRef (section_objs h' ! s') = Section.internalRef (section_objs h ! s)"
    by (simp_all add: section_view_def)
qed

lemma section_view_update:
  "i < length xs \<Longrightarrow>
     ((xs[c := (xs ! c)\<lparr>Section.parent := p\<rparr>]) ! i)\<lparr>Section.parent := None\<rparr> =
     (xs ! i)\<lparr>Section.parent := None\<rparr>"
  by (cases "i = c") simp_all

lemma note_view_update:
  "i < length xs \<Longrightarrow>
     ((xs[c := (xs ! c)\<lparr>Note.parent := p\<rparr>]) ! i)\<lparr>Note.parent := None\<rparr> =
     (xs ! i)\<lparr>Note.parent := None\<rparr>"
  by (cases "i = c") simp_all

lemma extends_refl: "extends h h"
  by (simp add: extends_def)

lemma extends_trans: "extends h1 h2 \<Longrightarrow> extends h2 h3 \<Longrightarrow> extends h1 h3"
  by (auto simp: extends_def)

lemma extends_new_Section: "extends h (snd (new_Section t ss ns r h))"
  by (simp add: extends_def new_Section_def section_view_def note_view_def nth_append)

lemma extends_new_Note: "extends h (snd (new_Note t tm es bs r h))"
  by (simp add: extends_def new_Note_def section_view_def note_view_def nth_append)

lemma extends_Section_addSection: "extends h (snd (Section_addSection c s h))"
  by (auto simp: extends_def Section_addSection_unfold section_view_def note_view_def nth_append
        nth_list_update)

lemma extends_Section_addNote: "extends h (snd (Section_addNote n s h))"
  by (simp add: extends_def Section_addNote_unfold section_view_def note_view_def nth_append
        note_view_update)

lemma extends_Notepad_addSection: "extends h (snd (Notepad_addSection c p h))"
  by (simp add: extends_def Notepad_addSection_unfold section_view_def note_view_def nth_append
        section_view_update)

lemma extends_new_Notepad: "extends h (snd (new_Notepad t opts h))"
  by (simp add: extends_def new_Notepad_def section_view_def note_view_def nth_append)

lemma represents_extends:
  "represents h s t \<Longrightarrow> extends h h' \<Longrightarrow> represents h' s t"
proof (induction rule: represents.induct)
  case (node s ts)
  have v: "section_view h' s = section_view h s" and l: "s < length (section_objs h')"
    using node.hyps(1) node.prems by (auto simp: extends_def)
  note f = section_view_eqD[OF v]
  have nv: "\<forall>n \<in> set (Section.notes (section_objs h' ! s)). n < length (note_objs h')"
    using node.hyps(2) node.prems f(3) by (auto simp: extends_def)
  have nn: "map (note_view h') (Section.notes (section_objs h' ! s)) =
            map (note_view h) (Section.notes (section_objs h ! s))"
    using node.hyps(2) node.prems f(3) by (auto simp: extends_def)
  have ch: "list_all2 (represents h') (Section.sections (section_objs h' ! s)) ts"
    using node.IH node.prems unfolding f(2)
    by (auto elim!: list_all2_mono)
  have "represents h' s
          (STree (Section.title (section_objs h' ! s)) (Section.internalRef (section_objs h' ! s))
             (map (note_view h') (Section.notes (section_objs h' ! s))) ts)"
    using l nv ch by (rule represents.node)
  then show ?case by (simp only: nn f(1) f(4))
qed

lemma list_all2_represents_extends:
  "list_all2 (represents h) ss ts \<Longrightarrow> extends h h' \<Longrightarrow> list_all2 (represents h') ss ts"
  by (auto elim!: list_all2_mono intro: represents_extends)

lemma represents_valid: "represents h s t \<Longrightarrow> s < length (section_objs h)"
  by (auto elim: represents.cases)

lemma restore_to_flat:
  "Note.parent n = None \<Longrightarrow>
     restoreNote (to_flat p n) h = (length (note_objs h), h\<lparr>note_objs := note_objs h @ [n]\<rparr>)"
  by (simp add: restoreNote_def new_Note_def to_flat_def)

lemma attachNote_to_flat:
  assumes "Note.parent n = None"
  shows "attachNote (sec, h) (to_flat p n) =
           (length (section_objs h),
            h\<lparr>section_objs := section_objs h @
                 [(section_objs h ! sec)\<lparr>Section.notes := Section.notes (section_objs h ! sec) @ [length (note_objs h)]\<rparr>],
              note_objs := note_objs h @
                 [n\<lparr>Note.parent := Some (SectionRef (length (section_objs h)))\<rparr>]\<rparr>)"
  by (simp add: attachNote_def restore_to_flat[OF assms] Section_addNote_unfold)

lemma attach_notes:
  assumes "sec < length (section_objs h)" and "\<forall>n \<in> set ns. Note.parent n = None"
  shows "\<exists>sec' h' new. foldl attachNote (sec, h) (map (to_flat p) ns) = (sec', h')
           \<and> sec' < length (section_objs h')
           \<and> Section.title (section_objs h' ! sec') = Section.title (section_objs h ! sec)
           \<and> Section.internalRef (section_objs h' ! sec') = Section.internalRef (section_objs h ! sec)
           \<and> Section.sections (section_objs h' ! sec') = Section.sections (section_objs h ! sec)
           \<and> Section.notes (section_objs h' ! sec') = Section.notes (section_objs h ! sec) @ new
           \<and> (\<forall>n \<in> set new. n < length (note_objs h'))
           \<and> map (note_view h') new = ns
           \<and> extends h h'"
  using assms
proof (induction ns arbitrary: sec h)
  case Nil
  show ?case by (simp add: extends_refl Nil)
next
  case (Cons n ns)
  let ?sec2 = "length (section_objs h)"
  let ?note = "length (note_objs h)"
  let ?h2 = "h\<lparr>section_objs := section_objs h @
                 [(section_objs h ! sec)\<lparr>Section.notes := Section.notes (section_objs h ! sec) @ [?note]\<rparr>],
              note_objs := note_objs h @ [n\<lparr>Note.parent := Some (SectionRef ?sec2)\<rparr>]\<rparr>"
  have pn: "Note.parent n = None" using Cons.prems(2) by simp
  have step: "attachNote (sec, h) (to_flat p n) = (?sec2, ?h2)"
    by (rule attachNote_to_flat[OF pn])
  have e12: "extends h ?h2"
    by (simp add: extends_def section_view_def note_view_def nth_append)
  have v2: "?sec2 < length (section_objs ?h2)" by simp
  from Cons.IH[OF v2] Cons.prems(2)
  obtain sec' h' new where r:
      "foldl attachNote (?sec2, ?h2) (map (to_flat p) ns) = (sec', h')"
      "sec' < length (section_objs h')"
      "Section.title (section_objs h' ! sec') = Section.title (section_objs ?h2 ! ?sec2)"
      "Section.internalRef (section_objs h' ! sec') = Section.internalRef (section_objs ?h2 ! ?sec2)"
      "Section.sections (section_objs h' ! sec') = Section.sections (section_objs ?h2 ! ?sec2)"
      "Section.notes (section_objs h' ! sec') = Section.notes (section_objs ?h2 ! ?sec2) @ new"
      "\<forall>n \<in> set new. n < length (note_objs h')"
      "map (note_view h') new = ns"
      "extends ?h2 h'"
    by auto
  have nl: "?note < length (note_objs ?h2)" by simp
  have nv: "note_view h' ?note = n"
  proof -
    have "note_view h' ?note = note_view ?h2 ?note" using r(9) nl by (simp add: extends_def)
    also have "\<dots> = n" using pn by (simp add: note_view_def)
    finally show ?thesis .
  qed
  have nl': "?note < length (note_objs h')" using r(9) nl by (auto simp: extends_def)
  have "foldl attachNote (sec, h) (map (to_flat p) (n # ns)) = (sec', h')"
    using step r(1) by simp
  moreover have "Section.notes (section_objs h' ! sec') = Section.notes (section_objs h ! sec) @ (?note # new)"
    using r(6) by simp
  moreover have "\<forall>m \<in> set (?note # new). m < length (note_objs h')" using r(7) nl' by simp
  moreover have "map (note_view h') (?note # new) = n # ns" using r(8) nv by simp
  moreover have "extends h h'" using e12 r(9) by (rule extends_trans)
  moreover have "Section.title (section_objs h' ! sec') = Section.title (section_objs h ! sec)"
      "Section.internalRef (section_objs h' ! sec') = Section.internalRef (section_objs h ! sec)"
      "Section.sections (section_objs h' ! sec') = Section.sections (section_objs h ! sec)"
    using r(3,4,5) by simp_all
  ultimately show ?case using r(2)
    by (intro exI[of _ sec'] exI[of _ h'] exI[of _ "length (note_objs h) # new"]) simp
qed

lemma attach_children:
  assumes build: "\<And>c h. c \<in> set cs \<Longrightarrow>
            \<exists>s' h'. b (e c) h = Some (s', h') \<and> represents h' s' c \<and> extends h h'"
      and "sec < length (section_objs h)"
      and "list_all2 (represents h) (Section.sections (section_objs h ! sec)) dts"
  shows "\<exists>sec' h'. forEach (\<lambda>c st. attachSection (b c (snd st)) (fst st)) (map e cs) (sec, h) = Some (sec', h')
           \<and> sec' < length (section_objs h')
           \<and> Section.title (section_objs h' ! sec') = Section.title (section_objs h ! sec)
           \<and> Section.internalRef (section_objs h' ! sec') = Section.internalRef (section_objs h ! sec)
           \<and> Section.notes (section_objs h' ! sec') = Section.notes (section_objs h ! sec)
           \<and> list_all2 (represents h') (Section.sections (section_objs h' ! sec')) (dts @ cs)
           \<and> extends h h'"
  using assms
proof (induction cs arbitrary: sec h dts)
  case Nil
  then show ?case by (simp add: extends_refl)
next
  case (Cons c cs)
  from Cons.prems(1)[of c h] obtain s1 h1 where b1:
      "b (e c) h = Some (s1, h1)" "represents h1 s1 c" "extends h h1"
    by auto
  let ?sec2 = "length (section_objs h1)"
  obtain h2 where h2: "Section_addSection s1 sec h1 = (?sec2, h2)"
    by (simp add: Section_addSection_unfold)
  have e12: "extends h1 h2" using extends_Section_addSection[of h1 s1 sec] h2 by simp
  have e02: "extends h h2" using b1(3) e12 by (rule extends_trans)
  have s1v: "s1 < length (section_objs h1)" using b1(2) by (rule represents_valid)
  have secv: "sec < length (section_objs h1)" using Cons.prems(2) b1(3) by (auto simp: extends_def)
  have sv: "section_view h1 sec = section_view h sec"
    using Cons.prems(2) b1(3) by (auto simp: extends_def)
  note f1 = section_view_eqD[OF sv]
  have obj2: "section_objs h2 ! ?sec2 =
       (section_objs h1 ! sec)\<lparr>Section.sections := Section.sections (section_objs h1 ! sec) @ [s1]\<rparr>"
    using h2 s1v by (auto simp: Section_addSection_unfold nth_list_update)
  have len2: "?sec2 < length (section_objs h2)"
    using h2 by (auto simp: Section_addSection_unfold)
  have ch2: "list_all2 (represents h2) (Section.sections (section_objs h2 ! ?sec2)) (dts @ [c])"
  proof -
    have "list_all2 (represents h2) (Section.sections (section_objs h ! sec)) dts"
      using Cons.prems(3) e02 by (rule list_all2_represents_extends)
    moreover have "represents h2 s1 c" using b1(2) e12 by (rule represents_extends)
    ultimately show ?thesis by (simp add: obj2 f1 list_all2_appendI)
  qed
  have "\<exists>sec' h'. forEach (\<lambda>c st. attachSection (b c (snd st)) (fst st)) (map e cs) (?sec2, h2) = Some (sec', h')
           \<and> sec' < length (section_objs h')
           \<and> Section.title (section_objs h' ! sec') = Section.title (section_objs h2 ! ?sec2)
           \<and> Section.internalRef (section_objs h' ! sec') = Section.internalRef (section_objs h2 ! ?sec2)
           \<and> Section.notes (section_objs h' ! sec') = Section.notes (section_objs h2 ! ?sec2)
           \<and> list_all2 (represents h') (Section.sections (section_objs h' ! sec')) ((dts @ [c]) @ cs)
           \<and> extends h2 h'"
    by (rule Cons.IH[OF _ len2 ch2]) (use Cons.prems(1) in auto)
  then obtain sec' h' where r:
      "forEach (\<lambda>c st. attachSection (b c (snd st)) (fst st)) (map e cs) (?sec2, h2) = Some (sec', h')"
      "sec' < length (section_objs h')"
      "Section.title (section_objs h' ! sec') = Section.title (section_objs h2 ! ?sec2)"
      "Section.internalRef (section_objs h' ! sec') = Section.internalRef (section_objs h2 ! ?sec2)"
      "Section.notes (section_objs h' ! sec') = Section.notes (section_objs h2 ! ?sec2)"
      "list_all2 (represents h') (Section.sections (section_objs h' ! sec')) ((dts @ [c]) @ cs)"
      "extends h2 h'"
    by blast
  have "forEach (\<lambda>c st. attachSection (b c (snd st)) (fst st)) (map e (c # cs)) (sec, h) = Some (sec', h')"
    using b1(1) h2 r(1) by (simp add: attachSection_def)
  moreover have "Section.title (section_objs h' ! sec') = Section.title (section_objs h ! sec)"
      "Section.internalRef (section_objs h' ! sec') = Section.internalRef (section_objs h ! sec)"
      "Section.notes (section_objs h' ! sec') = Section.notes (section_objs h ! sec)"
    using r(3,4,5) by (simp_all add: obj2 f1)
  moreover have "extends h h'" using e02 r(7) by (rule extends_trans)
  ultimately show ?case using r(2) r(6) by auto
qed

lemma nodes_self: "x \<in> set (nodes x)"
  by (cases x) simp

lemma nodes_children: "x \<in> set (nodes t) \<Longrightarrow> c \<in> set (st_children x) \<Longrightarrow> c \<in> set (nodes t)"
proof (induction t)
  case (STree tt r ns cs)
  show ?case
  proof (cases "x = STree tt r ns cs")
    case True
    with STree.prems(2) have "c \<in> set cs" by simp
    then show ?thesis using nodes_self[of c] by auto
  next
    case False
    with STree.prems(1) obtain c' where c': "c' \<in> set cs" "x \<in> set (nodes c')" by auto
    from STree.IH[OF c' STree.prems(2)] c'(1) show ?thesis by auto
  qed
qed

lemma forest_nodes_children:
  "x \<in> set (concat (map nodes ts)) \<Longrightarrow> c \<in> set (st_children x) \<Longrightarrow> c \<in> set (concat (map nodes ts))"
  by (auto intro: nodes_children)

lemma buildSection_represents:
  assumes FS: "map snd (FlatNotepad.sections fn) = FS"
      and FN: "map snd (FlatNotepad.notes fn) = FN"
      and res: "\<And>x. x \<in> set (concat (map nodes ts)) \<Longrightarrow>
                 filter (\<lambda>c. parentRef c = Some (st_ref x)) FS =
                   map (root_entry (Some (st_ref x))) (st_children x)
                 \<and> filter (\<lambda>n. FlatNote.parent n = Some (st_ref x)) FN =
                   map (to_flat (Some (st_ref x))) (st_notes x)"
      and clean: "\<And>x n. x \<in> set (concat (map nodes ts)) \<Longrightarrow> n \<in> set (st_notes x) \<Longrightarrow>
                 Note.parent n = None"
  shows "x \<in> set (concat (map nodes ts)) \<Longrightarrow> height x \<le> fuel \<Longrightarrow>
         \<exists>s' h'. buildSection fuel fn (root_entry p x) h = Some (s', h')
                \<and> represents h' s' x \<and> extends h h'"
proof (induction fuel arbitrary: x p h)
  case 0
  have "0 < height x" by (cases x) simp
  with "0.prems"(2) show ?case by simp
next
  case (Suc fuel)
  obtain tt r ns cs where x: "x = STree tt r ns cs" by (cases x)
  let ?sec = "length (section_objs h)"
  let ?h0 = "snd (new_Section tt [] [] r h)"
  have new: "new_Section tt [] [] r h = (?sec, ?h0)" by (simp add: new_Section_def)
  have e0: "extends h ?h0" by (rule extends_new_Section)
  have obj0: "section_objs ?h0 ! ?sec =
      \<lparr>Section.title = tt, sections = [], notes = [], internalRef = r, parent = None\<rparr>"
    by (simp add: new_Section_def)
  have v0: "?sec < length (section_objs ?h0)" by (simp add: new_Section_def)
  have subs: "filter (\<lambda>c. parentRef c = Some r) (map snd (FlatNotepad.sections fn)) =
                map (root_entry (Some r)) cs"
    and mine: "filter (\<lambda>n. FlatNote.parent n = Some r) (map snd (FlatNotepad.notes fn)) =
                map (to_flat (Some r)) ns"
    using res[OF Suc.prems(1)] by (simp_all add: x FS FN)
  have build: "\<And>c h. c \<in> set cs \<Longrightarrow>
      \<exists>s' h'. buildSection fuel fn (root_entry (Some r) c) h = Some (s', h')
             \<and> represents h' s' c \<and> extends h h'"
  proof -
    fix c h assume c: "c \<in> set cs"
    then have "c \<in> set (st_children x)" by (simp add: x)
    with Suc.prems(1) have cn: "c \<in> set (concat (map nodes ts))" by (rule forest_nodes_children)
    have "height c \<le> foldr max (map height cs) 0" using c by (rule height_child)
    with Suc.prems(2) have "height c \<le> fuel" by (simp add: x)
    with cn show "\<exists>s' h'. buildSection fuel fn (root_entry (Some r) c) h = Some (s', h')
             \<and> represents h' s' c \<and> extends h h'"
      by (rule Suc.IH)
  qed
  have ch0: "list_all2 (represents ?h0) (Section.sections (section_objs ?h0 ! ?sec)) []"
    by (simp add: obj0)
  from attach_children[where b = "buildSection fuel fn" and e = "root_entry (Some r)", OF build v0 ch0]
  obtain sec1 h1 where l1:
      "forEach (\<lambda>c st. attachSection (buildSection fuel fn c (snd st)) (fst st))
         (map (root_entry (Some r)) cs) (?sec, ?h0) = Some (sec1, h1)"
      "sec1 < length (section_objs h1)"
      "Section.title (section_objs h1 ! sec1) = Section.title (section_objs ?h0 ! ?sec)"
      "Section.internalRef (section_objs h1 ! sec1) = Section.internalRef (section_objs ?h0 ! ?sec)"
      "Section.notes (section_objs h1 ! sec1) = Section.notes (section_objs ?h0 ! ?sec)"
      "list_all2 (represents h1) (Section.sections (section_objs h1 ! sec1)) ([] @ cs)"
      "extends ?h0 h1"
    by blast
  have cl: "\<forall>n \<in> set ns. Note.parent n = None"
    using clean[OF Suc.prems(1)] by (simp add: x)
  from attach_notes[OF l1(2) cl, of "Some r"]
  obtain sec2 h2 new where l2:
      "foldl attachNote (sec1, h1) (map (to_flat (Some r)) ns) = (sec2, h2)"
      "sec2 < length (section_objs h2)"
      "Section.title (section_objs h2 ! sec2) = Section.title (section_objs h1 ! sec1)"
      "Section.internalRef (section_objs h2 ! sec2) = Section.internalRef (section_objs h1 ! sec1)"
      "Section.sections (section_objs h2 ! sec2) = Section.sections (section_objs h1 ! sec1)"
      "Section.notes (section_objs h2 ! sec2) = Section.notes (section_objs h1 ! sec1) @ new"
      "\<forall>n \<in> set new. n < length (note_objs h2)"
      "map (note_view h2) new = ns"
      "extends h1 h2"
    by blast
  have run: "buildSection (Suc fuel) fn (root_entry p x) h = Some (sec2, h2)"
    using new l1(1) l2(1) by (simp add: x root_entry_def subs mine)
  have nv: "\<forall>n \<in> set (Section.notes (section_objs h2 ! sec2)). n < length (note_objs h2)"
    using l2(6,7) l1(5) by (simp add: obj0)
  have ch: "list_all2 (represents h2) (Section.sections (section_objs h2 ! sec2)) cs"
    using list_all2_represents_extends[OF l1(6) l2(9)] l2(5) by simp
  have "represents h2 sec2
          (STree (Section.title (section_objs h2 ! sec2)) (Section.internalRef (section_objs h2 ! sec2))
             (map (note_view h2) (Section.notes (section_objs h2 ! sec2))) cs)"
    using l2(2) nv ch by (rule represents.node)
  moreover have "Section.title (section_objs h2 ! sec2) = tt"
      "Section.internalRef (section_objs h2 ! sec2) = r"
      "map (note_view h2) (Section.notes (section_objs h2 ! sec2)) = ns"
    using l2(3,4,6,8) l1(3,4,5) by (simp_all add: obj0)
  ultimately have "represents h2 sec2 x" by (simp add: x)
  moreover have "extends h h2" using e0 l1(7) l2(9) by (blast intro: extends_trans)
  ultimately show ?case using run by blast
qed

lemma attach_roots:
  assumes build: "\<And>c h. c \<in> set cs \<Longrightarrow>
            \<exists>s' h'. b (e c) h = Some (s', h') \<and> represents h' s' c \<and> extends h h'"
      and "np < length (notepad_objs h)"
      and "list_all2 (represents h) (Notepad.sections (notepad_objs h ! np)) dts"
  shows "\<exists>np' h'. forEach (\<lambda>c st. case b c (snd st) of None \<Rightarrow> None
                                   | Some (section, h1) \<Rightarrow> Some (Notepad_addSection section (fst st) h1))
                     (map e cs) (np, h) = Some (np', h')
           \<and> np' < length (notepad_objs h')
           \<and> Notepad.title (notepad_objs h' ! np') = Notepad.title (notepad_objs h ! np)
           \<and> Notepad.lastModified (notepad_objs h' ! np') = Notepad.lastModified (notepad_objs h ! np)
           \<and> Notepad.notepadAssets (notepad_objs h' ! np') = Notepad.notepadAssets (notepad_objs h ! np)
           \<and> Notepad.assets (notepad_objs h' ! np') = Notepad.assets (notepad_objs h ! np)
           \<and> list_all2 (represents h') (Notepad.sections (notepad_objs h' ! np')) (dts @ cs)
           \<and> extends h h'"
  using assms
proof (induction cs arbitrary: np h dts)
  case Nil
  then show ?case by (simp add: extends_refl)
next
  case (Cons c cs)
  let ?step = "\<lambda>c st. case b c (snd st) of None \<Rightarrow> None
                       | Some (section, h1) \<Rightarrow> Some (Notepad_addSection section (fst st) h1)"
  from Cons.prems(1)[of c h] obtain s1 h1 where b1:
      "b (e c) h = Some (s1, h1)" "represents h1 s1 c" "extends h h1"
    by auto
  let ?np2 = "length (notepad_objs h1)"
  obtain h2 where h2: "Notepad_addSection s1 np h1 = (?np2, h2)"
    by (simp add: Notepad_addSection_unfold)
  have e12: "extends h1 h2" using extends_Notepad_addSection[of h1 s1 np] h2 by simp
  have e02: "extends h h2" using b1(3) e12 by (rule extends_trans)
  have same: "notepad_objs h1 ! np = notepad_objs h ! np"
    using b1(3) Cons.prems(2) by (simp add: extends_def)
  have obj2: "notepad_objs h2 ! ?np2 =
       (notepad_objs h ! np)\<lparr>Notepad.sections := Notepad.sections (notepad_objs h ! np) @ [s1]\<rparr>"
    using h2 same by (auto simp: Notepad_addSection_unfold)
  have len2: "?np2 < length (notepad_objs h2)"
    using h2 by (auto simp: Notepad_addSection_unfold)
  have ch2: "list_all2 (represents h2) (Notepad.sections (notepad_objs h2 ! ?np2)) (dts @ [c])"
  proof -
    have "list_all2 (represents h2) (Notepad.sections (notepad_objs h ! np)) dts"
      using Cons.prems(3) e02 by (rule list_all2_represents_extends)
    moreover have "represents h2 s1 c" using b1(2) e12 by (rule represents_extends)
    ultimately show ?thesis by (simp add: obj2 list_all2_appendI)
  qed
  have "\<exists>np' h'. forEach ?step (map e cs) (?np2, h2) = Some (np', h')
           \<and> np' < length (notepad_objs h')
           \<and> Notepad.title (notepad_objs h' ! np') = Notepad.title (notepad_objs h2 ! ?np2)
           \<and> Notepad.lastModified (notepad_objs h' ! np') = Notepad.lastModified (notepad_objs h2 ! ?np2)
           \<and> Notepad.notepadAssets (notepad_objs h' ! np') = Notepad.notepadAssets (notepad_objs h2 ! ?np2)
           \<and> Notepad.assets (notepad_objs h' ! np') = Notepad.assets (notepad_objs h2 ! ?np2)
           \<and> list_all2 (represents h') (Notepad.sections (notepad_objs h' ! np')) ((dts @ [c]) @ cs)
           \<and> extends h2 h'"
    by (rule Cons.IH[OF _ len2 ch2]) (use Cons.prems(1) in auto)
  then obtain np' h' where r:
      "forEach ?step (map e cs) (?np2, h2) = Some (np', h')"
      "np' < length (notepad_objs h')"
      "Notepad.title (notepad_objs h' ! np') = Notepad.title (notepad_objs h2 ! ?np2)"
      "Notepad.lastModified (notepad_objs h' ! np') = Notepad.lastModified (notepad_objs h2 ! ?np2)"
      "Notepad.notepadAssets (notepad_objs h' ! np') = Notepad.notepadAssets (notepad_objs h2 ! ?np2)"
      "Notepad.assets (notepad_objs h' ! np') = Notepad.assets (notepad_objs h2 ! ?np2)"
      "list_all2 (represents h') (Notepad.sections (notepad_objs h' ! np')) ((dts @ [c]) @ cs)"
      "extends h2 h'"
    by blast
  have "forEach ?step (map e (c # cs)) (np, h) = Some (np', h')"
    using b1(1) h2 r(1) by simp
  moreover have "Notepad.title (notepad_objs h' ! np') = Notepad.title (notepad_objs h ! np)"
      "Notepad.lastModified (notepad_objs h' ! np') = Notepad.lastModified (notepad_objs h ! np)"
      "Notepad.notepadAssets (notepad_objs h' ! np') = Notepad.notepadAssets (notepad_objs h ! np)"
      "Notepad.assets (notepad_objs h' ! np') = Notepad.assets (notepad_objs h ! np)"
    using r(3,4,5,6) by (simp_all add: obj2)
  moreover have "extends h h'" using e02 r(8) by (rule extends_trans)
  ultimately show ?case using r(2) r(7) by auto
qed

lemma represents_clean:
  "represents h s t \<Longrightarrow> x \<in> set (nodes t) \<Longrightarrow> n \<in> set (st_notes x) \<Longrightarrow> Note.parent n = None"
proof (induction arbitrary: x rule: represents.induct)
  case (node s ts)
  let ?t = "STree (Section.title (section_objs h ! s)) (Section.internalRef (section_objs h ! s))
              (map (note_view h) (Section.notes (section_objs h ! s))) ts"
  show ?case
  proof (cases "x = ?t")
    case True
    with node.prems(2) show ?thesis by (auto simp: note_view_def)
  next
    case False
    with node.prems(1) obtain c where c: "c \<in> set ts" "x \<in> set (nodes c)" by auto
    from c(1) node.IH obtain sc where "\<And>x. x \<in> set (nodes c) \<Longrightarrow> n \<in> set (st_notes x) \<Longrightarrow> Note.parent n = None"
      by (auto simp: list_all2_conv_all_nth in_set_conv_nth)
    with c(2) node.prems(2) show ?thesis by blast
  qed
qed

subsection \<open>\<open>toNotepad\<close> on the flat form of a list of trees\<close>

lemma forest_clean:
  assumes "list_all2 (represents h) ss ts" and "x \<in> set (concat (map nodes ts))" and "n \<in> set (st_notes x)"
  shows "Note.parent n = None"
proof -
  from assms(2) obtain t where t: "t \<in> set ts" "x \<in> set (nodes t)" by auto
  from t(1) assms(1) obtain s where "represents h s t"
    by (auto simp: list_all2_conv_all_nth in_set_conv_nth)
  then show ?thesis using t(2) assms(3) by (rule represents_clean)
qed

lemma height_le_forest: "t \<in> set ts \<Longrightarrow> height t \<le> length (concat (map refs ts))"
proof (induction ts)
  case Nil
  then show ?case by simp
next
  case (Cons a ts)
  then show ?case using height_le_refs[of a] by auto
qed

lemma map_internalRef_forest:
  "map FlatSection.internalRef (concat (map (entries p) ts)) = concat (map refs ts)"
  by (induction ts) (simp_all add: map_internalRef_entries)

lemma toNotepad_represents:
  assumes S: "FlatNotepad.sections fn = keyed FlatSection.internalRef (concat (map (entries None) ts))"
      and N: "FlatNotepad.notes fn = keyed FlatNote.internalRef (concat (map fnotes ts))"
      and d: "distinct (concat (map refs ts))"
      and clean: "\<And>x n. x \<in> set (concat (map nodes ts)) \<Longrightarrow> n \<in> set (st_notes x) \<Longrightarrow>
                 Note.parent n = None"
  shows "\<exists>p' h'. toNotepad fn h = Some (p', h')
           \<and> p' < length (notepad_objs h')
           \<and> list_all2 (represents h') (Notepad.sections (notepad_objs h' ! p')) ts
           \<and> Notepad.title (notepad_objs h' ! p') = FlatNotepad.title fn
           \<and> Notepad.lastModified (notepad_objs h' ! p') = FlatNotepad.lastModified fn
           \<and> Notepad.notepadAssets (notepad_objs h' ! p') = FlatNotepad.notepadAssets fn
           \<and> extends h h'"
proof -
  let ?FS = "concat (map (entries None) ts)"
  let ?FN = "concat (map fnotes ts)"
  have FS: "map snd (FlatNotepad.sections fn) = ?FS" by (simp add: S keyed_def comp_def)
  have FN: "map snd (FlatNotepad.notes fn) = ?FN" by (simp add: N keyed_def comp_def)
  have keys: "map fst (FlatNotepad.sections fn) = concat (map refs ts)"
    by (simp add: S keyed_def comp_def map_internalRef_forest)
  have len: "length (FlatNotepad.sections fn) = length (concat (map refs ts))"
    using keys by (metis length_map)
  have nu: "\<not> unresolved fn"
  proof -
    have "\<And>c r. c \<in> set ?FS \<Longrightarrow> parentRef c = Some r \<Longrightarrow> r \<in> set (concat (map refs ts))"
    proof -
      fix c r assume c: "c \<in> set ?FS" "parentRef c = Some r"
      then obtain t where t: "t \<in> set ts" "c \<in> set (entries None t)" by auto
      from parentRef_entries[OF t(2)] c(2) have "r \<in> set (refs t)" by auto
      with t(1) show "r \<in> set (concat (map refs ts))" by auto
    qed
    then show ?thesis
      unfolding unresolved_def list_ex_iff FS keys by (auto split: option.splits)
  qed
  have res: "\<And>x. x \<in> set (concat (map nodes ts)) \<Longrightarrow>
                 filter (\<lambda>c. parentRef c = Some (st_ref x)) ?FS =
                   map (root_entry (Some (st_ref x))) (st_children x)
                 \<and> filter (\<lambda>n. FlatNote.parent n = Some (st_ref x)) ?FN =
                   map (to_flat (Some (st_ref x))) (st_notes x)"
    using filter_parent_forest[OF d] filter_notes_forest[OF d] by blast
  have roots: "filter (\<lambda>c. parentRef c = None) (map snd (FlatNotepad.sections fn)) = map (root_entry None) ts"
    unfolding FS by (rule filter_roots_forest)
  let ?opts = "no_opts\<lparr>NotepadOptions.lastModified := Present (FlatNotepad.lastModified fn),
                       NotepadOptions.notepadAssets := Present (FlatNotepad.notepadAssets fn)\<rparr>"
  let ?np = "length (notepad_objs h)"
  let ?h0 = "snd (new_Notepad (FlatNotepad.title fn) ?opts h)"
  have new: "new_Notepad (FlatNotepad.title fn) ?opts h = (?np, ?h0)" by (simp add: new_Notepad_def)
  have obj0: "notepad_objs ?h0 ! ?np =
      \<lparr>Notepad.title = FlatNotepad.title fn, lastModified = FlatNotepad.lastModified fn,
       sections = [], notepadAssets = FlatNotepad.notepadAssets fn, assets = []\<rparr>"
    by (simp add: new_Notepad_def or_else_def no_opts_def)
  have v0: "?np < length (notepad_objs ?h0)" by (simp add: new_Notepad_def)
  have e0: "extends h ?h0" by (rule extends_new_Notepad)
  have build: "\<And>c h. c \<in> set ts \<Longrightarrow>
      \<exists>s' h'. buildSection (length (FlatNotepad.sections fn)) fn (root_entry None c) h = Some (s', h')
             \<and> represents h' s' c \<and> extends h h'"
  proof -
    fix c h assume c: "c \<in> set ts"
    then have cn: "c \<in> set (concat (map nodes ts))" using nodes_self[of c] by auto
    have hc: "height c \<le> length (FlatNotepad.sections fn)"
      unfolding len using c by (rule height_le_forest)
    show "\<exists>s' h'. buildSection (length (FlatNotepad.sections fn)) fn (root_entry None c) h = Some (s', h')
             \<and> represents h' s' c \<and> extends h h'"
      by (rule buildSection_represents[OF FS FN res clean cn hc])
  qed
  have ch0: "list_all2 (represents ?h0) (Notepad.sections (notepad_objs ?h0 ! ?np)) []"
    by (simp add: obj0)
  from attach_roots[where b = "buildSection (length (FlatNotepad.sections fn)) fn"
                      and e = "root_entry None", OF build v0 ch0]
  obtain np' h' where r:
      "forEach (\<lambda>c st. case buildSection (length (FlatNotepad.sections fn)) fn c (snd st) of
                          None \<Rightarrow> None
                        | Some (section, h1) \<Rightarrow> Some (Notepad_addSection section (fst st) h1))
         (map (root_entry None) ts) (?np, ?h0) = Some (np', h')"
      "np' < length (notepad_objs h')"
      "Notepad.title (notepad_objs h' ! np') = Notepad.title (notepad_objs ?h0 ! ?np)"
      "Notepad.lastModified (notepad_objs h' ! np') = Notepad.lastModified (notepad_objs ?h0 ! ?np)"
      "Notepad.notepadAssets (notepad_objs h' ! np') = Notepad.notepadAssets (notepad_objs ?h0 ! ?np)"
      "Notepad.assets (notepad_objs h' ! np') = Notepad.assets (notepad_objs ?h0 ! ?np)"
      "list_all2 (represents h') (Notepad.sections (notepad_objs h' ! np')) ([] @ ts)"
      "extends ?h0 h'"
    by blast
  have run: "toNotepad fn h = Some (np', h')"
    using nu new r(1) by (simp add: toNotepad_def roots)
  have "extends h h'" using e0 r(8) by (rule extends_trans)
  then show ?thesis using run r(2,3,4,5,7) by (simp add: obj0)
qed

subsection \<open>\<open>flatten\<close> gives the flat form of the trees\<close>

lemma add_forest_Nil: "add_forest p [] np = np"
  by (simp add: add_forest_def upd_all_Nil)

lemma add_forest_Cons: "add_forest p (t # ts) np = add_forest p ts (add_tree p t np)"
  by (simp add: add_forest_def add_tree_def upd_all_append)

lemma forEach_add_forest:
  assumes "list_all2 (\<lambda>c tc. \<forall>np np'. f c np = Some np' \<longrightarrow> np' = add_tree p tc np) cs tcs"
      and "forEach f cs np = Some np'"
  shows "np' = add_forest p tcs np"
  using assms
proof (induction arbitrary: np rule: list_all2_induct)
  case Nil
  then show ?case by (simp add: add_forest_Nil)
next
  case (Cons c cs tc tcs)
  from Cons.prems obtain np1 where n1: "f c np = Some np1" "forEach f cs np1 = Some np'"
    by (auto split: option.splits)
  from Cons.hyps(1) n1(1) have "np1 = add_tree p tc np" by blast
  with Cons.IH[OF n1(2)] show ?case by (simp add: add_forest_Cons)
qed

lemma addNote_ops:
  "addNote FlatNotepad_ops h n np =
     np\<lparr>FlatNotepad.notes :=
          AList.update (FlatNote.internalRef (flat_note h n)) (flat_note h n) (FlatNotepad.notes np)\<rparr>"
  by (simp add: FlatNotepad_ops_def FlatNotepad_addNote_def flat_note_def Let_def)

lemma foldl_update_notes:
  "foldl (\<lambda>np n. np\<lparr>FlatNotepad.notes :=
             AList.update (FlatNote.internalRef (g n)) (g n) (FlatNotepad.notes np)\<rparr>) np ns =
     np\<lparr>FlatNotepad.notes := upd_all FlatNote.internalRef (map g ns) (FlatNotepad.notes np)\<rparr>"
  by (induction ns arbitrary: np) (simp_all add: upd_all_Nil upd_all_Cons)

lemma foldl_addNote:
  "foldl (\<lambda>np n. addNote FlatNotepad_ops h n np) np ns =
     np\<lparr>FlatNotepad.notes := upd_all FlatNote.internalRef (map (flat_note h) ns) (FlatNotepad.notes np)\<rparr>"
  unfolding addNote_ops by (rule foldl_update_notes)

lemma flat_note_to_flat:
  "FlatNote.parent (flat_note h n) = p \<Longrightarrow> flat_note h n = to_flat p (note_view h n)"
  by (auto simp: flat_note_def to_flat_def note_view_def Let_def)

lemma flattenSection_add_tree:
  assumes "represents h s t"
      and "\<forall>q \<in> below h s.
             (\<forall>c \<in> set (Section.sections (section_objs h ! q)).
                parentRef (flat_descriptor h c) = Some (Section.internalRef (section_objs h ! q)))
           \<and> (\<forall>n \<in> set (Section.notes (section_objs h ! q)).
                FlatNote.parent (flat_note h n) = Some (Section.internalRef (section_objs h ! q)))"
      and "parentRef (flat_descriptor h s) = p"
      and "flattenSection FlatNotepad_ops fuel h s np = Some np'"
  shows "np' = add_tree p t np"
  using assms
proof (induction fuel arbitrary: s t p np np')
  case 0
  then show ?case by simp
next
  case (Suc fuel)
  let ?sec = "section_objs h ! s"
  from Suc.prems(1) obtain ts where t: "t = STree (Section.title ?sec) (Section.internalRef ?sec)
        (map (note_view h) (Section.notes ?sec)) ts"
    and ch: "list_all2 (represents h) (Section.sections ?sec) ts"
    by (auto elim: represents.cases)
  let ?r = "Section.internalRef ?sec"
  have sb: "s \<in> below h s" by (rule below.self)
  have flat: "flat_descriptor h s = root_entry p t"
    using Suc.prems(3) by (simp add: flat_descriptor_def root_entry_def t Let_def)
  have nts: "map (flat_note h) (Section.notes ?sec) = map (to_flat (Some ?r)) (map (note_view h) (Section.notes ?sec))"
    using Suc.prems(2) sb by (auto intro!: flat_note_to_flat)
  let ?np2 = "np\<lparr>FlatNotepad.sections := AList.update ?r (root_entry p t) (FlatNotepad.sections np),
                 FlatNotepad.notes := upd_all FlatNote.internalRef
                    (map (to_flat (Some ?r)) (map (note_view h) (Section.notes ?sec))) (FlatNotepad.notes np)\<rparr>"
  have run: "forEach (flattenSection FlatNotepad_ops fuel h) (Section.sections ?sec) ?np2 = Some np'"
  proof -
    have a: "addSection FlatNotepad_ops (flat_descriptor h s) np =
               np\<lparr>FlatNotepad.sections := AList.update ?r (root_entry p t) (FlatNotepad.sections np)\<rparr>"
      by (simp add: FlatNotepad_ops_def FlatNotepad_addSection_def flat) (simp add: root_entry_def t)
    from Suc.prems(4) show ?thesis
      by (simp add: Let_def a foldl_addNote nts)
  qed
  have kids: "list_all2 (\<lambda>c tc. \<forall>np np'. flattenSection FlatNotepad_ops fuel h c np = Some np'
                  \<longrightarrow> np' = add_tree (Some ?r) tc np) (Section.sections ?sec) ts"
  proof (rule list.rel_mono_strong[OF ch])
    fix c tc assume rc: "represents h c tc"
    assume "c \<in> set (Section.sections ?sec)" 
    then have cb: "c \<in> below h s" using sb by (auto intro: below.child)
    have lk: "\<forall>q \<in> below h c.
             (\<forall>c \<in> set (Section.sections (section_objs h ! q)).
                parentRef (flat_descriptor h c) = Some (Section.internalRef (section_objs h ! q)))
           \<and> (\<forall>n \<in> set (Section.notes (section_objs h ! q)).
                FlatNote.parent (flat_note h n) = Some (Section.internalRef (section_objs h ! q)))"
      using Suc.prems(2) cb by (auto intro: below_trans)
    have pc: "parentRef (flat_descriptor h c) = Some ?r"
      using Suc.prems(2) sb \<open>c \<in> set (Section.sections ?sec)\<close> by blast
    show "\<forall>np np'. flattenSection FlatNotepad_ops fuel h c np = Some np'
                  \<longrightarrow> np' = add_tree (Some ?r) tc np"
      using Suc.IH[OF rc lk pc] by blast
  qed
  have "np' = add_forest (Some ?r) ts ?np2"
    using kids run by (rule forEach_add_forest)
  then show ?case
    by (simp add: add_forest_def add_tree_def t upd_all_append upd_all_Cons root_entry_def)
qed

lemma map_internalRef_fnotes_forest:
  "map FlatNote.internalRef (concat (map fnotes ts)) = concat (map note_refs ts)"
  by (induction ts) (simp_all add: map_internalRef_fnotes)

lemma upd_all_keyed: "distinct (map kf xs) \<Longrightarrow> upd_all kf xs [] = keyed kf xs"
  using upd_all_fresh[of kf xs "[]"] by (simp add: keyed_def)

lemma below_tree_sections:
  "s \<in> set (Notepad.sections (notepad_objs h ! this)) \<Longrightarrow> q \<in> below h s \<Longrightarrow> q \<in> tree_sections h this"
  by (auto simp: tree_sections_def)

lemma flatten_keyed:
  assumes rep: "list_all2 (represents h) (Notepad.sections (notepad_objs h ! this)) ts"
      and lk: "links_ok h this"
      and d: "distinct (concat (map refs ts))"
      and dn: "distinct (concat (map note_refs ts))"
      and run: "flatten FlatNotepad_ops fuel this h = Some F"
  shows "F = \<lparr>FlatNotepad.title = Notepad.title (notepad_objs h ! this),
              lastModified = Notepad.lastModified (notepad_objs h ! this),
              sections = keyed FlatSection.internalRef (concat (map (entries None) ts)),
              notes = keyed FlatNote.internalRef (concat (map fnotes ts)),
              notepadAssets = Notepad.notepadAssets (notepad_objs h ! this)\<rparr>"
proof -
  let ?me = "notepad_objs h ! this"
  let ?np0 = "new_FlatNotepad' (Notepad.title ?me) (Notepad.lastModified ?me) (Notepad.notepadAssets ?me)"
  have fe: "forEach (flattenSection FlatNotepad_ops fuel h) (Notepad.sections ?me) ?np0 = Some F"
    using run by (simp add: flatten_def Let_def FlatNotepad_ops_def)
  have kids: "list_all2 (\<lambda>c tc. \<forall>np np'. flattenSection FlatNotepad_ops fuel h c np = Some np'
                  \<longrightarrow> np' = add_tree None tc np) (Notepad.sections ?me) ts"
  proof (rule list.rel_mono_strong[OF rep])
    fix c tc assume rc: "represents h c tc"
    assume cin: "c \<in> set (Notepad.sections ?me)"
    have l1: "\<forall>q \<in> below h c.
             (\<forall>c \<in> set (Section.sections (section_objs h ! q)).
                parentRef (flat_descriptor h c) = Some (Section.internalRef (section_objs h ! q)))
           \<and> (\<forall>n \<in> set (Section.notes (section_objs h ! q)).
                FlatNote.parent (flat_note h n) = Some (Section.internalRef (section_objs h ! q)))"
      using lk below_tree_sections[OF cin] unfolding links_ok_def by blast
    have pc: "parentRef (flat_descriptor h c) = None"
      using lk cin unfolding links_ok_def by blast
    show "\<forall>np np'. flattenSection FlatNotepad_ops fuel h c np = Some np'
                  \<longrightarrow> np' = add_tree None tc np"
      using flattenSection_add_tree[OF rc l1 pc] by blast
  qed
  have "F = add_forest None ts ?np0" using kids fe by (rule forEach_add_forest)
  moreover have "distinct (map FlatSection.internalRef (concat (map (entries None) ts)))"
    using d by (simp add: map_internalRef_forest)
  moreover have "distinct (map FlatNote.internalRef (concat (map fnotes ts)))"
    using dn by (simp add: map_internalRef_fnotes_forest)
  ultimately show ?thesis
    by (simp add: add_forest_def new_FlatNotepad'_def upd_all_keyed)
qed

lemma forest_valid:
  "list_all2 (represents h) ss ts \<Longrightarrow> s \<in> set ss \<Longrightarrow> s < length (section_objs h)"
  by (induction rule: list_all2_induct) (auto dest: represents_valid)

subsection \<open>The round trip\<close>

text \<open>
  Claim C1, amended. Take a notepad whose sections are each older than their parent, whose
  top-level sections stand for the trees \<open>ts\<close>, whose parent back-references agree with
  the tree, and in which no two sections and no two notes carry the same \<open>internalRef\<close>.
  Then \<open>flatten\<close> returns a flat notepad, \<open>toNotepad\<close> succeeds on it, and the top-level
  sections of the notepad it returns stand for the same trees \<open>ts\<close>: the same
  \<open>internalRef\<close>s, the same children in the same order under every section, the same
  notes with the same title, time, elements and bibliography. The title, the timestamp and
  the asset identifiers of the notepad are kept, and the objects that were in the store
  are as they were.
\<close>

theorem flatten_toNotepad_roundtrip:
  assumes "children_older h"
      and "list_all2 (represents h) (Notepad.sections (notepad_objs h ! this)) ts"
      and "links_ok h this"
      and "distinct (concat (map refs ts))"
      and "distinct (concat (map note_refs ts))"
  shows "\<exists>F p' h'. flatten FlatNotepad_ops (length (section_objs h)) this h = Some F
           \<and> toNotepad F h = Some (p', h')
           \<and> list_all2 (represents h') (Notepad.sections (notepad_objs h' ! p')) ts
           \<and> Notepad.title (notepad_objs h' ! p') = Notepad.title (notepad_objs h ! this)
           \<and> Notepad.lastModified (notepad_objs h' ! p') = Notepad.lastModified (notepad_objs h ! this)
           \<and> Notepad.notepadAssets (notepad_objs h' ! p') = Notepad.notepadAssets (notepad_objs h ! this)
           \<and> extends h h'"
proof -
  have v: "\<forall>s \<in> set (Notepad.sections (notepad_objs h ! this)). s < length (section_objs h)"
    using forest_valid[OF assms(2)] by blast
  have "flatten FlatNotepad_ops (length (section_objs h)) this h \<noteq> None"
    using assms(1) v by (rule flatten_returns)
  then obtain F where F: "flatten FlatNotepad_ops (length (section_objs h)) this h = Some F" by blast
  note Feq = flatten_keyed[OF assms(2,3,4,5) F]
  have S: "FlatNotepad.sections F = keyed FlatSection.internalRef (concat (map (entries None) ts))"
   and N: "FlatNotepad.notes F = keyed FlatNote.internalRef (concat (map fnotes ts))"
    unfolding Feq by simp_all
  have clean: "\<And>x n. x \<in> set (concat (map nodes ts)) \<Longrightarrow> n \<in> set (st_notes x) \<Longrightarrow>
                 Note.parent n = None"
    using forest_clean[OF assms(2)] by blast
  have "\<exists>p' h'. toNotepad F h = Some (p', h')
           \<and> p' < length (notepad_objs h')
           \<and> list_all2 (represents h') (Notepad.sections (notepad_objs h' ! p')) ts
           \<and> Notepad.title (notepad_objs h' ! p') = FlatNotepad.title F
           \<and> Notepad.lastModified (notepad_objs h' ! p') = FlatNotepad.lastModified F
           \<and> Notepad.notepadAssets (notepad_objs h' ! p') = FlatNotepad.notepadAssets F
           \<and> extends h h'"
    by (rule toNotepad_represents[OF S N assms(4)]) (rule clean)
  then obtain p' h' where r: "toNotepad F h = Some (p', h')"
      "list_all2 (represents h') (Notepad.sections (notepad_objs h' ! p')) ts"
      "Notepad.title (notepad_objs h' ! p') = FlatNotepad.title F"
      "Notepad.lastModified (notepad_objs h' ! p') = FlatNotepad.lastModified F"
      "Notepad.notepadAssets (notepad_objs h' ! p') = FlatNotepad.notepadAssets F"
      "extends h h'"
    by blast
  have "FlatNotepad.title F = Notepad.title (notepad_objs h ! this)"
       "FlatNotepad.lastModified F = Notepad.lastModified (notepad_objs h ! this)"
       "FlatNotepad.notepadAssets F = Notepad.notepadAssets (notepad_objs h ! this)"
    unfolding Feq by simp_all
  with F r show ?thesis by auto
qed

lemma family_eval:
  "family = (1, \<lparr>notepad_objs =
        [\<lparr>Notepad.title = ''P'', lastModified = 7, sections = [], notepadAssets = [], assets = []\<rparr>,
         \<lparr>Notepad.title = ''P'', lastModified = 7, sections = [3], notepadAssets = [], assets = []\<rparr>],
      section_objs =
        [\<lparr>Section.title = ''B'', sections = [], notes = [], internalRef = ''_b'', parent = Some (SectionRef 2)\<rparr>,
         \<lparr>Section.title = ''A'', sections = [], notes = [], internalRef = ''_a'', parent = None\<rparr>,
         \<lparr>Section.title = ''A'', sections = [0], notes = [], internalRef = ''_a'', parent = None\<rparr>,
         \<lparr>Section.title = ''A'', sections = [0], notes = [0], internalRef = ''_a'', parent = Some (NotepadRef 1)\<rparr>],
      note_objs =
        [\<lparr>Note.title = ''N'', time = 1, elements = [], bibliography = [], internalRef = ''_n'',
          parent = Some (SectionRef 3)\<rparr>],
      now = 7\<rparr>)"
  by (simp add: family_def Notepad_addSection_unfold Section_addSection_unfold Section_addNote_unfold
        new_Notepad_def new_Section_def new_Note_def empty_heap_def no_opts_def or_else_def Let_def)

lemma family_fields:
  "fst family = 1"
  "notepad_objs (snd family) ! Suc 0 =
     \<lparr>Notepad.title = ''P'', lastModified = 7, sections = [3], notepadAssets = [], assets = []\<rparr>"
  "section_objs (snd family) ! 0 =
     \<lparr>Section.title = ''B'', sections = [], notes = [], internalRef = ''_b'', parent = Some (SectionRef 2)\<rparr>"
  "section_objs (snd family) ! 2 =
     \<lparr>Section.title = ''A'', sections = [0], notes = [], internalRef = ''_a'', parent = None\<rparr>"
  "section_objs (snd family) ! 3 =
     \<lparr>Section.title = ''A'', sections = [0], notes = [0], internalRef = ''_a'', parent = Some (NotepadRef 1)\<rparr>"
  "note_objs (snd family) ! 0 =
     \<lparr>Note.title = ''N'', time = 1, elements = [], bibliography = [], internalRef = ''_n'',
      parent = Some (SectionRef 3)\<rparr>"
  "length (section_objs (snd family)) = 4"
  "length (note_objs (snd family)) = 1"
  by (simp_all add: family_eval numeral_3_eq_3 numeral_2_eq_2)

lemma family_children_older: "children_older (snd family)"
proof -
  have "c < s" if "s < 4" and "c \<in> set (Section.sections (section_objs (snd family) ! s))" for s c
  proof -
    from that(1) have "s = 0 \<or> s = 1 \<or> s = 2 \<or> s = 3" by arith
    with that(2) show ?thesis by (auto simp: family_eval)
  qed
  then show ?thesis
    unfolding children_older_def family_fields(7) by blast
qed

lemma family_represents:
  "list_all2 (represents (snd family)) (Notepad.sections (notepad_objs (snd family) ! 1)) family_tree"
proof -
  have b: "represents (snd family) 0 (STree ''B'' ''_b'' [] [])"
    using represents.node[of 0 "snd family" "[]"] by (simp add: family_fields)
  have "represents (snd family) 3
          (STree ''A'' ''_a''
             [\<lparr>Note.title = ''N'', time = 1, elements = [], bibliography = [], internalRef = ''_n'',
               parent = None\<rparr>]
             [STree ''B'' ''_b'' [] []])"
    using represents.node[of 3 "snd family" "[STree ''B'' ''_b'' [] []]"] b
    by (simp add: family_fields note_view_def)
  then show ?thesis by (simp add: family_fields family_tree_def)
qed

lemma family_below: "below (snd family) 0 = {0}" "below (snd family) 3 = {3, 0}"
proof -
  show b: "below (snd family) 0 = {0}"
    by (subst below_unfold) (simp add: family_fields)
  show "below (snd family) 3 = {3, 0}"
    by (subst below_unfold) (simp add: family_fields b)
qed

lemma family_links_ok: "links_ok (snd family) 1"
  unfolding links_ok_def tree_sections_def
  by (simp add: family_fields family_below flat_descriptor_def flat_note_def)

text \<open>Claim C1, amended, on the notepad \<open>P\<close> with the section \<open>A\<close>, which holds \<open>B\<close> and \<open>N\<close>.\<close>

theorem flatten_toNotepad_roundtrip_witness:
  "children_older (snd family)
   \<and> list_all2 (represents (snd family)) (Notepad.sections (notepad_objs (snd family) ! 1)) family_tree
   \<and> links_ok (snd family) 1
   \<and> distinct (concat (map refs family_tree))
   \<and> distinct (concat (map note_refs family_tree))
   \<and> (\<exists>F p' h'. flatten FlatNotepad_ops (length (section_objs (snd family))) 1 (snd family) = Some F
          \<and> toNotepad F (snd family) = Some (p', h')
          \<and> list_all2 (represents h') (Notepad.sections (notepad_objs h' ! p')) family_tree)"
proof -
  have d: "distinct (concat (map refs family_tree))" "distinct (concat (map note_refs family_tree))"
    by (simp_all add: family_tree_def)
  from flatten_toNotepad_roundtrip[OF family_children_older family_represents family_links_ok d]
  have "\<exists>F p' h'. flatten FlatNotepad_ops (length (section_objs (snd family))) 1 (snd family) = Some F
          \<and> toNotepad F (snd family) = Some (p', h')
          \<and> list_all2 (represents h') (Notepad.sections (notepad_objs h' ! p')) family_tree"
    by blast
  with family_children_older family_represents family_links_ok d show ?thesis by blast
qed

lemma flatten_ops_unfold:
  "flatten FlatNotepad_ops fuel this h =
     forEach (flattenSection FlatNotepad_ops fuel h) (Notepad.sections (notepad_objs h ! this))
       \<lparr>FlatNotepad.title = Notepad.title (notepad_objs h ! this),
        lastModified = Notepad.lastModified (notepad_objs h ! this), sections = [], notes = [],
        notepadAssets = Notepad.notepadAssets (notepad_objs h ! this)\<rparr>"
  by (simp add: flatten_def Let_def FlatNotepad_ops_def new_FlatNotepad'_def)

text \<open>
  Claim C1 as stated fails on a notepad built through the public operations: after
  \<open>p2 = p.addSection(s); a.addSection(s)\<close> the only flat section of \<open>p2.flatten()\<close> is
  \<open>s\<close> with the \<open>internalRef\<close> of \<open>a\<close> as \<open>parentRef\<close>, which no flat section carries,
  and \<open>toNotepad\<close> fails.
\<close>

theorem shared_section_roundtrip_fails:
  "flatten FlatNotepad_ops (length (section_objs (snd shared_section))) (fst shared_section)
       (snd shared_section) =
     Some \<lparr>FlatNotepad.title = ''P'', lastModified = 7,
           sections = [(''_s'', \<lparr>FlatSection.title = ''S'', internalRef = ''_s'', parentRef = Some ''_a''\<rparr>)],
           notes = [], notepadAssets = []\<rparr>
   \<and> toNotepad \<lparr>FlatNotepad.title = ''P'', lastModified = 7,
           sections = [(''_s'', \<lparr>FlatSection.title = ''S'', internalRef = ''_s'', parentRef = Some ''_a''\<rparr>)],
           notes = [], notepadAssets = []\<rparr> (snd shared_section) = None"
proof -
  have l: "length (section_objs (snd shared_section)) = Suc (Suc (Suc 0))"
    by (simp add: shared_section_eval)
  have a: "flatten FlatNotepad_ops (length (section_objs (snd shared_section))) (fst shared_section)
       (snd shared_section) =
     Some \<lparr>FlatNotepad.title = ''P'', lastModified = 7,
           sections = [(''_s'', \<lparr>FlatSection.title = ''S'', internalRef = ''_s'', parentRef = Some ''_a''\<rparr>)],
           notes = [], notepadAssets = []\<rparr>"
    unfolding l flatten_ops_unfold
    by (simp add: shared_section_eval flat_descriptor_def FlatNotepad_ops_def FlatNotepad_addSection_def)
  have b: "toNotepad \<lparr>FlatNotepad.title = ''P'', lastModified = 7,
           sections = [(''_s'', \<lparr>FlatSection.title = ''S'', internalRef = ''_s'', parentRef = Some ''_a''\<rparr>)],
           notes = [], notepadAssets = []\<rparr> (snd shared_section) = None"
    by (simp add: toNotepad_def unresolved_def)
  from a b show ?thesis by blast
qed

section \<open>Properties of the search index\<close>

subsection \<open>Collecting a subtree\<close>

lemma set_from_Set [simp]: "set (from_Set xs) = set xs"
  by (simp add: from_Set_def)

lemma distinct_from_Set [simp]: "distinct (from_Set xs)"
  by (simp add: from_Set_def)

lemma set_object_values: "set (object_values kvs) = snd ` set kvs"
  by (auto simp: object_values_def)

lemma foldl_append_concat: "foldl (\<lambda>acc val. acc @ val) a xs = a @ concat xs"
  by (induction xs arbitrary: a) simp_all

lemma set_getAllFrom_children:
  "set (getAllFrom (TrieNode k ns cs)) = set ns \<union> (\<Union>ce \<in> set cs. set (getAllFrom (snd ce)))"
  by (auto simp: foldl_append_concat set_object_values)

lemma subtree_children:
  "subtree (TrieNode k ns cs) = insert (TrieNode k ns cs) (\<Union>ce \<in> set cs. subtree (snd ce))"
  by auto

lemma set_getAllFrom_subtree: "set (getAllFrom n) = (\<Union>m \<in> subtree n. set (node_notes m))"
proof (induction n)
  case (TrieNode k ns cs)
  have "(\<Union>ce \<in> set cs. set (getAllFrom (snd ce))) =
        (\<Union>ce \<in> set cs. \<Union>m \<in> subtree (snd ce). set (node_notes m))"
    using TrieNode.IH by (auto simp: snds.simps)
  then show ?case
    unfolding set_getAllFrom_children subtree_children by auto
qed

subsection \<open>Walking down and inserting\<close>

lemma descend_append:
  "descend (p @ q) n = (case descend p n of None \<Rightarrow> None | Some m \<Rightarrow> descend q m)"
  by (induction p arbitrary: n) (auto split: option.splits)

lemma descend_None_iff:
  "descend q n = None \<longleftrightarrow>
     (\<exists>p c s m. q = p @ c # s \<and> descend p n = Some m \<and> map_of (children m) c = None)"
proof (induction q arbitrary: n)
  case Nil
  then show ?case by simp
next
  case (Cons a q)
  show ?case
  proof (cases "map_of (children n) a")
    case None
    have "a # q = [] @ a # q \<and> descend [] n = Some n \<and> map_of (children n) a = None"
      using None by simp
    then have "\<exists>p c s m. a # q = p @ c # s \<and> descend p n = Some m \<and> map_of (children m) c = None"
      by blast
    with None show ?thesis by simp
  next
    case (Some ch)
    have "(\<exists>p c s m. a # q = p @ c # s \<and> descend p n = Some m \<and> map_of (children m) c = None)
        \<longleftrightarrow> (\<exists>p c s m. q = p @ c # s \<and> descend p ch = Some m \<and> map_of (children m) c = None)"
      (is "?L \<longleftrightarrow> ?R")
    proof
      assume ?L
      then obtain p c s m where h: "a # q = p @ c # s" "descend p n = Some m" "map_of (children m) c = None"
        by blast
      show ?R
      proof (cases p)
        case Nil
        with h Some show ?thesis by simp
      next
        case (Cons b p')
        with h Some have "q = p' @ c # s \<and> descend p' ch = Some m \<and> map_of (children m) c = None"
          by simp
        then show ?thesis by blast
      qed
    next
      assume ?R
      then obtain p c s m where h: "q = p @ c # s" "descend p ch = Some m" "map_of (children m) c = None"
        by blast
      then have "a # q = (a # p) @ c # s \<and> descend (a # p) n = Some m \<and> map_of (children m) c = None"
        using Some by simp
      then show ?L by blast
    qed
    with Some Cons.IH[of ch] show ?thesis by simp
  qed
qed

lemma lookup_insert_node:
  "lookup (insert_node k r n) k' = (if k' = k then lookup n k @ [r] else lookup n k')"
proof (induction k r n arbitrary: k' rule: insert_node.induct)
  case (1 ref k ns cs)
  then show ?case by (cases k') (simp_all add: lookup_def)
next
  case (2 ch rest ref k ns cs)
  show ?case
  proof (cases k')
    case Nil
    then show ?thesis by (simp add: lookup_def split: option.splits)
  next
    case (Cons c' rest')
    show ?thesis
    proof (cases "map_of cs ch")
      case None
      have "lookup (insert_node rest ref (TrieNode [ch] [] [])) rest' =
            (if rest' = rest then lookup (TrieNode [ch] [] []) rest @ [ref] else lookup (TrieNode [ch] [] []) rest')"
        using "2.IH"(1)[OF None] .
      moreover have "\<And>x. lookup (TrieNode [ch] [] []) x = []"
        by (case_tac x) (simp_all add: lookup_def)
      ultimately show ?thesis using None Cons
        by (auto simp: lookup_def split: option.splits)
    next
      case (Some child)
      have "lookup (insert_node rest ref child) rest' =
            (if rest' = rest then lookup child rest @ [ref] else lookup child rest')"
        using "2.IH"(2)[OF Some] .
      then show ?thesis using Some Cons
        by (auto simp: lookup_def update_conv' split: option.splits)
    qed
  qed
qed

lemma distinct_keys_children:
  "distinct_keys (TrieNode k ns cs) = (distinct (map fst cs) \<and> (\<forall>ce \<in> set cs. distinct_keys (snd ce)))"
  by (auto simp: list_all_iff)

declare distinct_keys.simps [simp del]

lemma set_update_subset: "set (AList.update k v al) \<subseteq> insert (k, v) (set al)"
  by (induction al) auto

lemma distinct_keys_insert_node: "distinct_keys n \<Longrightarrow> distinct_keys (insert_node k r n)"
proof (induction k r n rule: insert_node.induct)
  case (1 ref k ns cs)
  then show ?case by (simp add: distinct_keys_children)
next
  case (2 ch rest ref k ns cs)
  show ?case
  proof (cases "map_of cs ch")
    case None
    then have "ch \<notin> fst ` set cs" by (simp add: map_of_eq_None_iff)
    moreover have "distinct_keys (insert_node rest ref (TrieNode [ch] [] []))"
      using "2.IH"(1)[OF None] by (simp add: distinct_keys_children)
    ultimately show ?thesis using None "2.prems"
      by (auto simp: distinct_keys_children)
  next
    case (Some child)
    then have "(ch, child) \<in> set cs" by (rule map_of_SomeD)
    then have "distinct_keys child" using "2.prems" by (auto simp: distinct_keys_children)
    then have "distinct_keys (insert_node rest ref child)" using "2.IH"(2)[OF Some] by simp
    then show ?thesis using Some "2.prems"
      by (auto simp: distinct_keys_children distinct_update dest!: set_mp[OF set_update_subset])
  qed
qed

lemma distinct_keys_descend:
  "distinct_keys n \<Longrightarrow> descend q n = Some m \<Longrightarrow> distinct_keys m"
proof (induction q arbitrary: n)
  case Nil
  then show ?case by simp
next
  case (Cons c q)
  obtain k ns cs where n: "n = TrieNode k ns cs" by (cases n)
  from Cons.prems obtain ch where ch: "map_of cs c = Some ch" "descend q ch = Some m"
    by (auto simp: n split: option.splits)
  then have "(c, ch) \<in> set cs" by (auto dest: map_of_SomeD)
  with Cons.prems(1) have "distinct_keys ch" by (auto simp: n distinct_keys_children)
  with ch Cons.IH show ?case by blast
qed

lemma set_getAllFrom_lookup:
  "distinct_keys n \<Longrightarrow> set (getAllFrom n) = (\<Union>p. set (lookup n p))"
proof (induction n)
  case (TrieNode k ns cs)
  have dk: "distinct (map fst cs)" and dc: "\<And>ce. ce \<in> set cs \<Longrightarrow> distinct_keys (snd ce)"
    using TrieNode.prems by (auto simp: distinct_keys_children)
  have IH: "\<And>ce. ce \<in> set cs \<Longrightarrow> set (getAllFrom (snd ce)) = (\<Union>p. set (lookup (snd ce) p))"
    using TrieNode.IH dc by (auto simp: snds.simps)
  have mem: "\<And>c ch. (c, ch) \<in> set cs \<longleftrightarrow> map_of cs c = Some ch"
    using dk by (auto dest: map_of_SomeD)
  have "(\<Union>p. set (lookup (TrieNode k ns cs) p)) = set ns \<union> (\<Union>ce \<in> set cs. \<Union>p. set (lookup (snd ce) p))"
  proof (rule set_eqI, rule iffI)
    fix r assume "r \<in> (\<Union>p. set (lookup (TrieNode k ns cs) p))"
    then obtain p where r: "r \<in> set (lookup (TrieNode k ns cs) p)" by blast
    show "r \<in> set ns \<union> (\<Union>ce \<in> set cs. \<Union>p. set (lookup (snd ce) p))"
    proof (cases p)
      case Nil
      with r show ?thesis by (simp add: lookup_def)
    next
      case (Cons c p')
      with r obtain ch where ch: "map_of cs c = Some ch" "r \<in> set (lookup ch p')"
        by (auto simp: lookup_def split: option.splits)
      then have "(c, ch) \<in> set cs" using mem by simp
      with ch show ?thesis by force
    qed
  next
    fix r assume "r \<in> set ns \<union> (\<Union>ce \<in> set cs. \<Union>p. set (lookup (snd ce) p))"
    then consider "r \<in> set ns" | c ch p where "(c, ch) \<in> set cs" "r \<in> set (lookup ch p)"
      by force
    then show "r \<in> (\<Union>p. set (lookup (TrieNode k ns cs) p))"
    proof cases
      case 1
      then have "r \<in> set (lookup (TrieNode k ns cs) [])" by (simp add: lookup_def)
      then show ?thesis by blast
    next
      case 2
      then have "map_of cs c = Some ch" using mem by simp
      with 2 have "r \<in> set (lookup (TrieNode k ns cs) (c # p))"
        by (auto simp: lookup_def split: option.splits)
      then show ?thesis by blast
    qed
  qed
  then show ?case unfolding set_getAllFrom_children using IH by simp
qed

lemma root_add_all_distinct_keys:
  "distinct_keys (root t) \<Longrightarrow> distinct_keys (root (add_all ops t))"
proof (induction ops arbitrary: t)
  case Nil
  then show ?case by simp
next
  case (Cons op ops)
  obtain k r where op: "op = (k, r)" by (cases op)
  have "distinct_keys (root (add k r t))"
    using Cons.prems by (simp add: add_def Let_def distinct_keys_insert_node)
  then show ?case using Cons.IH by (simp add: op)
qed

lemma lookup_add:
  "set (lookup (root (add k r t)) p) =
     set (lookup (root t) p) \<union> (if \<not> is_hashtag k \<and> p = k then {r} else {})"
  by (auto simp: add_def Let_def is_hashtag_def lookup_insert_node)

lemma lookup_add_all:
  "set (lookup (root (add_all ops t)) p) =
     set (lookup (root t) p) \<union> {r. (p, r) \<in> set ops \<and> \<not> is_hashtag p}"
proof (induction ops arbitrary: t)
  case Nil
  then show ?case by simp
next
  case (Cons op ops)
  obtain k r where op: "op = (k, r)" by (cases op)
  show ?case unfolding op add_all.simps Cons.IH lookup_add by auto
qed

lemma lookup_new_Trie: "lookup (root (new_Trie lm)) p = []"
  by (cases p) (simp_all add: lookup_def new_Trie_def)

lemma distinct_keys_new_Trie: "distinct_keys (root (new_Trie lm))"
  by (simp add: new_Trie_def distinct_keys_children)

lemma lookup_descend:
  "descend q n = Some m \<Longrightarrow> lookup m p = lookup n (q @ p)"
  by (simp add: lookup_def descend_append)

lemma lookup_descend_None:
  "descend q n = None \<Longrightarrow> lookup n (q @ p) = []"
  by (simp add: lookup_def descend_append)

text \<open>
  What a title query returns on an index built by \<open>add\<close> calls: the references added
  under the keys the query is a prefix of, each once.
\<close>

lemma search_prefix:
  assumes "\<not> is_hashtag q"
  shows "distinct (search q (add_all ops (new_Trie lm))) \<and>
         set (search q (add_all ops (new_Trie lm))) =
           {r. \<exists>k. (k, r) \<in> set ops \<and> \<not> is_hashtag k \<and> prefix q k}"
proof -
  let ?t = "add_all ops (new_Trie lm)"
  have dk: "distinct_keys (root ?t)"
    by (rule root_add_all_distinct_keys) (rule distinct_keys_new_Trie)
  have lk: "\<And>p. set (lookup (root ?t) p) = {r. (p, r) \<in> set ops \<and> \<not> is_hashtag p}"
    by (simp add: lookup_add_all lookup_new_Trie)
  show ?thesis
  proof (cases "descend q (root ?t)")
    case None
    have "\<And>k r. (k, r) \<in> set ops \<Longrightarrow> \<not> is_hashtag k \<Longrightarrow> prefix q k \<Longrightarrow> False"
    proof -
      fix k r assume h: "(k, r) \<in> set ops" "\<not> is_hashtag k" "prefix q k"
      then obtain p where "k = q @ p" by (auto simp: prefix_def)
      with None have "lookup (root ?t) k = []" by (simp add: lookup_descend_None)
      with lk[of k] h show False by auto
    qed
    with None assms show ?thesis by (auto simp: search_def is_hashtag_def)
  next
    case (Some m)
    have "distinct_keys m" using dk Some by (rule distinct_keys_descend)
    then have "set (getAllFrom m) = (\<Union>p. set (lookup m p))" by (rule set_getAllFrom_lookup)
    also have "\<dots> = (\<Union>p. set (lookup (root ?t) (q @ p)))"
      using lookup_descend[OF Some] by simp
    also have "\<dots> = {r. \<exists>k. (k, r) \<in> set ops \<and> \<not> is_hashtag k \<and> prefix q k}"
      unfolding lk by (auto simp: prefix_def)
    finally show ?thesis using Some assms by (simp add: search_def is_hashtag_def)
  qed
qed

subsection \<open>Title search\<close>

lemma search_title_None:
  "\<not> is_hashtag q \<Longrightarrow> descend q (root t) = None \<Longrightarrow> search q t = []"
  by (simp add: search_def is_hashtag_def)

lemma search_title_Some:
  "\<not> is_hashtag q \<Longrightarrow> descend q (root t) = Some n \<Longrightarrow>
     distinct (search q t) \<and> set (search q t) = (\<Union>m \<in> subtree n. set (node_notes m))"
  by (simp add: search_def is_hashtag_def set_getAllFrom_subtree)

text \<open>
  Claim C6. For a query that does not start with \<open>#\<close>, \<open>search\<close> walks down one character
  at a time. If the walk reaches a node that has no child for the next character of the
  query, the result is the empty list. Otherwise the walk ends at a node, and the result
  has no duplicates and holds exactly the references stored at that node and at the nodes
  of its subtree. On an index built by \<open>add\<close> calls from a new one, \<open>search("")\<close> has no
  duplicates and holds exactly the references added under keys that are not hashtags.
\<close>

theorem search_title_walk:
  assumes "\<not> is_hashtag query"
  shows "((\<exists>p c s m. query = p @ c # s \<and> descend p (root t) = Some m \<and> map_of (children m) c = None)
            \<longrightarrow> search query t = [])
       \<and> (\<not> (\<exists>p c s m. query = p @ c # s \<and> descend p (root t) = Some m \<and> map_of (children m) c = None)
            \<longrightarrow> (\<exists>node. descend query (root t) = Some node \<and> distinct (search query t) \<and>
                  set (search query t) = (\<Union>m \<in> subtree node. set (node_notes m))))
       \<and> distinct (search [] (add_all ops (new_Trie built)))
       \<and> set (search [] (add_all ops (new_Trie built))) =
            {r. \<exists>k. (k, r) \<in> set ops \<and> \<not> is_hashtag k}"
proof (intro conjI impI)
  assume "\<exists>p c s m. query = p @ c # s \<and> descend p (root t) = Some m \<and> map_of (children m) c = None"
  then have "descend query (root t) = None" by (simp add: descend_None_iff)
  with assms show "search query t = []" by (rule search_title_None)
next
  assume "\<not> (\<exists>p c s m. query = p @ c # s \<and> descend p (root t) = Some m \<and> map_of (children m) c = None)"
  then have "descend query (root t) \<noteq> None" by (simp add: descend_None_iff)
  then obtain node where n: "descend query (root t) = Some node" by blast
  with search_title_Some[OF assms n]
  show "\<exists>node. descend query (root t) = Some node \<and> distinct (search query t) \<and>
                  set (search query t) = (\<Union>m \<in> subtree node. set (node_notes m))"
    by blast
next
  have nh: "\<not> is_hashtag []" by (simp add: is_hashtag_def charAt0_def)
  show "distinct (search [] (add_all ops (new_Trie built)))"
    using search_prefix[OF nh] by blast
  show "set (search [] (add_all ops (new_Trie built))) = {r. \<exists>k. (k, r) \<in> set ops \<and> \<not> is_hashtag k}"
    using search_prefix[OF nh, of ops built] by simp
qed

subsection \<open>The index of two titles and one hashtag\<close>

lemma demo_root:
  "root demo_index = TrieNode [CHR 0x00] [] [(CHR ''c'', TrieNode ''c'' []
       [(CHR ''a'', TrieNode ''a'' [] [(CHR ''t'', TrieNode ''t'' [''ref1''] []),
                                       (CHR ''r'', TrieNode ''r'' [''ref2''] [])])])]"
  by (simp add: demo_index_def demo_ops_def new_Trie_def add_def charAt0_def)

lemma demo_tsize: "tsize demo_index = 2"
  by (simp add: demo_index_def demo_ops_def new_Trie_def add_def charAt0_def)

lemma demo_hashtags:  "hashtags demo_index ''#todo'' = Some [''refA'']"
  by (simp add: demo_index_def demo_ops_def new_Trie_def add_def charAt0_def)

theorem search_title_walk_witness:
  "\<not> is_hashtag ''ca'' \<and> search ''ca'' demo_index = [''ref1'', ''ref2'']
   \<and> search ''cat'' demo_index = [''ref1'']
   \<and> search ''dog'' demo_index = []
   \<and> set (search [] demo_index) = {''ref1'', ''ref2''}"
proof -
  have h: "\<not> is_hashtag ''ca''" by (simp add: is_hashtag_def charAt0_def)
  note w = search_title_walk[OF h, of demo_index demo_ops 5]
  have "search ''ca'' demo_index = [''ref1'', ''ref2'']"
    by (simp add: search_def demo_root charAt0_def from_Set_def object_values_def is_index_key_def)
  moreover have "search ''cat'' demo_index = [''ref1'']"
    by (simp add: search_def demo_root charAt0_def from_Set_def object_values_def is_index_key_def)
  moreover have "search ''dog'' demo_index = []"
    by (simp add: search_def demo_root charAt0_def)
  moreover have "{r. \<exists>k. (k, r) \<in> set demo_ops \<and> \<not> is_hashtag k} = {''ref1'', ''ref2''}"
    by (simp add: demo_ops_def is_hashtag_def charAt0_def ex_disj_distrib conj_disj_distribR Collect_disj_eq insert_commute)
  moreover have "set (search [] demo_index) = {r. \<exists>k. (k, r) \<in> set demo_ops \<and> \<not> is_hashtag k}"
    unfolding demo_index_def using w by blast
  ultimately show ?thesis using h by simp
qed

subsection \<open>Hashtag buckets\<close>

lemma buckets_distinct_add: "buckets_distinct t \<Longrightarrow> buckets_distinct (add k r t)"
  by (auto simp: buckets_distinct_def add_def Let_def split: option.splits)

lemma buckets_distinct_add_all: "buckets_distinct t \<Longrightarrow> buckets_distinct (add_all ops t)"
proof (induction ops arbitrary: t)
  case Nil
  then show ?case by simp
next
  case (Cons op ops)
  obtain k r where op: "op = (k, r)" by (cases op)
  show ?case using Cons.IH[OF buckets_distinct_add[OF Cons.prems]] by (simp add: op)
qed

lemma buckets_distinct_new_Trie: "buckets_distinct (new_Trie built)"
  by (simp add: buckets_distinct_def new_Trie_def)

lemma distinct_search_hashtag:
  "is_hashtag k \<Longrightarrow> buckets_distinct t \<Longrightarrow> distinct (search k t)"
  by (auto simp: search_def is_hashtag_def buckets_distinct_def split: option.splits)

lemma search_add_hashtag:
  "is_hashtag k \<Longrightarrow>
     search k (add k r t) = (if r \<in> set (search k t) then search k t else search k t @ [r])"
  by (auto simp: search_def add_def is_hashtag_def Let_def split: option.splits)

lemma count_list_distinct: "distinct xs \<Longrightarrow> x \<in> set xs \<Longrightarrow> count_list xs x = 1"
  by (induction xs) auto

lemma add_hashtag_twice: "is_hashtag k \<Longrightarrow> add k r (add k r t) = add k r t"
  by (auto simp: add_def is_hashtag_def Let_def split: option.splits)

lemma add_hashtag_funpow: "is_hashtag k \<Longrightarrow> (add k r ^^ Suc n) t = add k r t"
  by (induction n) (simp_all add: add_hashtag_twice)

text \<open>
  Claim C7. For a key that starts with \<open>#\<close>, on an index built by \<open>add\<close> calls from a new
  one: adding the same reference under the same key any number of times leaves the index
  as one \<open>add\<close> leaves it; \<open>search\<close> of the key then lists the reference exactly once and
  lists nothing twice; and the bucket is the bucket from before, in its order, with the
  reference at its end if it was not there.
\<close>

theorem add_hashtag_idempotent:
  assumes "is_hashtag k"
  shows "(add k ref ^^ Suc n) (add_all ops (new_Trie built)) = add k ref (add_all ops (new_Trie built))
       \<and> count_list (search k ((add k ref ^^ Suc n) (add_all ops (new_Trie built)))) ref = 1
       \<and> distinct (search k ((add k ref ^^ Suc n) (add_all ops (new_Trie built))))
       \<and> search k ((add k ref ^^ Suc n) (add_all ops (new_Trie built))) =
           (if ref \<in> set (search k (add_all ops (new_Trie built)))
            then search k (add_all ops (new_Trie built))
            else search k (add_all ops (new_Trie built)) @ [ref])"
proof -
  let ?t = "add_all ops (new_Trie built)"
  have bd: "buckets_distinct ?t"
    by (rule buckets_distinct_add_all) (rule buckets_distinct_new_Trie)
  have pw: "(add k ref ^^ Suc n) ?t = add k ref ?t"
    using assms by (rule add_hashtag_funpow)
  have d: "distinct (search k (add k ref ?t))"
    using assms buckets_distinct_add[OF bd] by (rule distinct_search_hashtag)
  have m: "ref \<in> set (search k (add k ref ?t))"
    by (simp add: search_add_hashtag[OF assms])
  have c: "count_list (search k (add k ref ?t)) ref = 1"
    using d m by (rule count_list_distinct)
  show ?thesis
    unfolding pw using c d search_add_hashtag[OF assms, of ref ?t] by simp
qed

theorem add_hashtag_idempotent_witness:
  "is_hashtag ''#todo'' \<and>
   search ''#todo'' ((add ''#todo'' ''refA'' ^^ Suc 1) (add_all [] (new_Trie 0))) = [''refA''] \<and>
   count_list (search ''#todo'' ((add ''#todo'' ''refA'' ^^ Suc 1) (add_all [] (new_Trie 0)))) ''refA'' = 1"
proof -
  have h: "is_hashtag ''#todo''" by (simp add: is_hashtag_def charAt0_def)
  note w = add_hashtag_idempotent[OF h, where ref = "''refA''" and n = 1 and ops = "[]" and built = 0]
  have e: "search ''#todo'' (add_all [] (new_Trie 0)) = []"
    by (simp add: search_def new_Trie_def charAt0_def)
  have "search ''#todo'' ((add ''#todo'' ''refA'' ^^ Suc 1) (add_all [] (new_Trie 0))) =
          (if ''refA'' \<in> set (search ''#todo'' (add_all [] (new_Trie 0)))
           then search ''#todo'' (add_all [] (new_Trie 0))
           else search ''#todo'' (add_all [] (new_Trie 0)) @ [''refA''])"
    using w by blast
  then have s: "search ''#todo'' ((add ''#todo'' ''refA'' ^^ Suc 1) (add_all [] (new_Trie 0))) = [''refA'']"
    unfolding e by simp
  have c: "count_list (search ''#todo'' ((add ''#todo'' ''refA'' ^^ Suc 1) (add_all [] (new_Trie 0)))) ''refA'' = 1"
    using w by blast
  from h s c show ?thesis by blast
qed

subsection \<open>The size counter and staleness\<close>

lemma tsize_add: "tsize (add k r t) = (if is_hashtag k then tsize t else Suc (tsize t))"
  by (simp add: add_def is_hashtag_def Let_def)

lemma lastModified_add: "lastModified (add k r t) = lastModified t"
  by (simp add: add_def Let_def)

lemma tsize_add_all:
  "tsize (add_all ops t) = tsize t + length (filter (\<lambda>op. \<not> is_hashtag (fst op)) ops)"
proof (induction ops arbitrary: t)
  case Nil
  then show ?case by simp
next
  case (Cons op ops)
  obtain k r where op: "op = (k, r)" by (cases op)
  show ?case by (simp add: op Cons.IH tsize_add)
qed

lemma lastModified_add_all: "lastModified (add_all ops t) = lastModified t"
proof (induction ops arbitrary: t)
  case Nil
  then show ?case by simp
next
  case (Cons op ops)
  obtain k r where op: "op = (k, r)" by (cases op)
  show ?case by (simp add: op Cons.IH lastModified_add)
qed

text \<open>
  Claim C8. \<open>shouldReindex\<close> is true exactly when the time the index holds is strictly
  after the time given or the count given differs from the size counter; on an index built
  by \<open>add\<close> calls from a new one, that time is the time it was built with and the counter
  is the number of \<open>add\<close> calls whose key is not a hashtag. The function has no failing
  branch: it is a total function to \<^typ>\<open>bool\<close>.
\<close>

theorem shouldReindex_iff:
  "(shouldReindex t lm n \<longleftrightarrow> lm < lastModified t \<or> n \<noteq> int (size_Trie t))
   \<and> (shouldReindex (add_all ops (new_Trie built)) lm n \<longleftrightarrow>
        lm < built \<or> n \<noteq> int (length (filter (\<lambda>op. \<not> is_hashtag (fst op)) ops)))"
  by (simp add: shouldReindex_def size_Trie_def tsize_add_all lastModified_add_all new_Trie_def)

text \<open>
  Claim C10. An \<open>add\<close> under a key that starts with \<open>#\<close> leaves the size counter as it
  was, and with it every answer of \<open>shouldReindex\<close>; on an index built by \<open>add\<close> calls
  from a new one the counter is the number of calls whose key is not a hashtag.
\<close>

theorem add_hashtag_keeps_size:
  assumes "is_hashtag k"
  shows "size_Trie (add k ref t) = size_Trie t
       \<and> shouldReindex (add k ref t) lm n = shouldReindex t lm n
       \<and> size_Trie (add_all ops (new_Trie built)) =
           length (filter (\<lambda>op. \<not> is_hashtag (fst op)) ops)"
  using assms
  by (simp add: shouldReindex_def size_Trie_def tsize_add lastModified_add tsize_add_all new_Trie_def)

theorem add_hashtag_keeps_size_witness:
  "is_hashtag ''#todo'' \<and> size_Trie (add ''#todo'' ''refA'' demo_index) = 2
   \<and> size_Trie demo_index = 2
   \<and> shouldReindex (add ''#todo'' ''refA'' demo_index) 5 2 = False"
proof -
  have h: "is_hashtag ''#todo''" by (simp add: is_hashtag_def charAt0_def)
  have s: "size_Trie demo_index = 2" by (simp add: size_Trie_def demo_tsize)
  have l: "lastModified demo_index = 5" by (simp add: demo_index_def lastModified_add_all new_Trie_def)
  have r: "shouldReindex demo_index 5 2 = False" by (simp add: shouldReindex_def s l)
  from add_hashtag_keeps_size[OF h, where ref = "''refA''" and t = demo_index and lm = 5 and n = 2 and ops = "[]" and built = 0] h s r
  show ?thesis by simp
qed

end
